theory Spec2Isabelle
  imports Main "HOL-Library.Word"
begin

unbundle bit_operations_syntax

section \<open>ALF: array-based lock-free queue (linux/alf_queue.h)\<close>

text \<open>
  The header is embedded function by function. A \<open>u32\<close> is a 32-bit word, so
  \<open>+\<close> and \<open>-\<close> wrap as in C. The loop variables \<open>int i, index\<close> of the
  transfer helpers are 32-bit words as well (the kernel is built with wrapping signed
  arithmetic); \<open>i < n\<close> and \<open>index == q->size\<close> compare against a \<open>u32\<close> and are
  therefore unsigned comparisons, \<open>index & q->mask\<close> is an unsigned value, while the
  plain subscripts \<open>ptr[i]\<close> and \<open>q->ring[index]\<close> use the signed value (\<open>sint\<close>).

  Memory reached through \<open>q->ring\<close> and through \<open>ptr\<close> is a store from element offsets
  to values: offsets \<open>0 .. size - 1\<close> of the ring store are the ring proper, any other
  offset is the memory next to it, so that an access past the end of the array is a
  visible write or read of a cell outside the ring and not an unspecified value.
\<close>

type_synonym u32 = "32 word"

type_synonym 'a mem = "int \<Rightarrow> 'a"

record alf_actor =
  head :: u32
  tail :: u32

record 'a alf_queue =
  size_q :: u32
  mask_q :: u32
  flags :: u32
  producer :: alf_actor
  consumer :: alf_actor
  ring :: "'a mem"

datatype errno = ENOBUFS

subsection \<open>Transfer helpers\<close>

text \<open>\<open>__helper_alf_enqueue_store_simple\<close>: the body of the \<open>for\<close> loop stores, then
  tests \<open>index == q->size\<close>, then the loop header increments \<open>i\<close> and \<open>index\<close>.\<close>

function enqueue_store_simple_loop ::
  "u32 \<Rightarrow> u32 \<Rightarrow> u32 \<Rightarrow> 'a alf_queue \<Rightarrow> 'a mem \<Rightarrow> 'a alf_queue" where
  "enqueue_store_simple_loop n i index q ptr =
     (if i < n then
        let q' = q\<lparr>ring := (ring q)(sint index := ptr (sint i))\<rparr>;
            index' = (if index = size_q q' then 0 else index)
        in enqueue_store_simple_loop n (i + 1) (index' + 1) q' ptr
      else q)"
  by pat_completeness auto
termination
  apply (relation "measure (\<lambda>(n, i, index, q, ptr). unat n - unat i)")
   apply simp
  apply (clarsimp simp: word_less_nat_alt unat_word_ariths)
  subgoal for n i using unsigned_less [of n, where 'a = nat] by simp
  done

definition helper_alf_enqueue_store_simple ::
  "u32 \<Rightarrow> u32 \<Rightarrow> 'a alf_queue \<Rightarrow> 'a mem \<Rightarrow> u32 \<Rightarrow> 'a alf_queue" where
  "helper_alf_enqueue_store_simple p_head c_tail q ptr n =
     enqueue_store_simple_loop n 0 p_head q ptr"

text \<open>\<open>__helper_alf_enqueue_store_mask\<close>\<close>

function enqueue_store_mask_loop ::
  "u32 \<Rightarrow> u32 \<Rightarrow> u32 \<Rightarrow> 'a alf_queue \<Rightarrow> 'a mem \<Rightarrow> 'a alf_queue" where
  "enqueue_store_mask_loop n i index q ptr =
     (if i < n then
        enqueue_store_mask_loop n (i + 1) (index + 1)
          (q\<lparr>ring := (ring q)(uint (index AND mask_q q) := ptr (sint i))\<rparr>) ptr
      else q)"
  by pat_completeness auto
termination
  apply (relation "measure (\<lambda>(n, i, index, q, ptr). unat n - unat i)")
   apply simp
  apply (clarsimp simp: word_less_nat_alt unat_word_ariths)
  subgoal for n i using unsigned_less [of n, where 'a = nat] by simp
  done

definition helper_alf_enqueue_store_mask ::
  "u32 \<Rightarrow> u32 \<Rightarrow> 'a alf_queue \<Rightarrow> 'a mem \<Rightarrow> u32 \<Rightarrow> 'a alf_queue" where
  "helper_alf_enqueue_store_mask p_head c_tail q ptr n =
     enqueue_store_mask_loop n 0 p_head q ptr"

text \<open>\<open>memcpy(dst + d, src + s, cnt * sizeof(void *))\<close> on two separate objects, counted
  in elements (\<open>size_t\<close> is 64 bits wide, so the byte count does not wrap).\<close>

definition memcpy :: "'a mem \<Rightarrow> int \<Rightarrow> 'a mem \<Rightarrow> int \<Rightarrow> nat \<Rightarrow> 'a mem" where
  "memcpy dst d src s cnt =
     (\<lambda>a. if d \<le> a \<and> a < d + int cnt then src (s + (a - d)) else dst a)"

text \<open>\<open>__helper_alf_enqueue_store_memcpy\<close>\<close>

definition helper_alf_enqueue_store_memcpy ::
  "u32 \<Rightarrow> u32 \<Rightarrow> 'a alf_queue \<Rightarrow> 'a mem \<Rightarrow> u32 \<Rightarrow> 'a alf_queue" where
  "helper_alf_enqueue_store_memcpy p_head c_tail q ptr n =
     (if p_head \<ge> c_tail then
        q\<lparr>ring := memcpy (ring q) (uint p_head) ptr 0 (unat n)\<rparr>
      else
        let dif = size_q q - c_tail;
            q1 = (if dif \<noteq> 0
                  then q\<lparr>ring := memcpy (ring q) (uint p_head) ptr 0 (unat dif)\<rparr>
                  else q)
        in q1\<lparr>ring := memcpy (ring q1) 0 ptr (uint dif) (unat (c_tail - dif))\<rparr>)"

text \<open>\<open>__helper_alf_dequeue_load_simple\<close>: the queue is only read, the result is the
  caller's buffer \<open>ptr\<close> after the call.\<close>

function dequeue_load_simple_loop ::
  "u32 \<Rightarrow> u32 \<Rightarrow> u32 \<Rightarrow> 'a alf_queue \<Rightarrow> 'a mem \<Rightarrow> 'a mem" where
  "dequeue_load_simple_loop elems i index q ptr =
     (if i < elems then
        let ptr' = ptr(sint i := ring q (sint index));
            index' = (if index = size_q q then 0 else index)
        in dequeue_load_simple_loop elems (i + 1) (index' + 1) q ptr'
      else ptr)"
  by pat_completeness auto
termination
  apply (relation "measure (\<lambda>(elems, i, index, q, ptr). unat elems - unat i)")
   apply simp
  apply (clarsimp simp: word_less_nat_alt unat_word_ariths)
  subgoal for n i using unsigned_less [of n, where 'a = nat] by simp
  done

definition helper_alf_dequeue_load_simple ::
  "u32 \<Rightarrow> u32 \<Rightarrow> 'a alf_queue \<Rightarrow> 'a mem \<Rightarrow> u32 \<Rightarrow> 'a mem" where
  "helper_alf_dequeue_load_simple c_head p_tail q ptr elems =
     dequeue_load_simple_loop elems 0 c_head q ptr"

text \<open>\<open>__helper_alf_dequeue_load_mask\<close>\<close>

function dequeue_load_mask_loop ::
  "u32 \<Rightarrow> u32 \<Rightarrow> u32 \<Rightarrow> 'a alf_queue \<Rightarrow> 'a mem \<Rightarrow> 'a mem" where
  "dequeue_load_mask_loop elems i index q ptr =
     (if i < elems then
        dequeue_load_mask_loop elems (i + 1) (index + 1) q
          (ptr(sint i := ring q (uint (index AND mask_q q))))
      else ptr)"
  by pat_completeness auto
termination
  apply (relation "measure (\<lambda>(elems, i, index, q, ptr). unat elems - unat i)")
   apply simp
  apply (clarsimp simp: word_less_nat_alt unat_word_ariths)
  subgoal for n i using unsigned_less [of n, where 'a = nat] by simp
  done

definition helper_alf_dequeue_load_mask ::
  "u32 \<Rightarrow> u32 \<Rightarrow> 'a alf_queue \<Rightarrow> 'a mem \<Rightarrow> u32 \<Rightarrow> 'a mem" where
  "helper_alf_dequeue_load_mask c_head p_tail q ptr elems =
     dequeue_load_mask_loop elems 0 c_head q ptr"

text \<open>\<open>__helper_alf_dequeue_load_memcpy\<close>\<close>

definition helper_alf_dequeue_load_memcpy ::
  "u32 \<Rightarrow> u32 \<Rightarrow> 'a alf_queue \<Rightarrow> 'a mem \<Rightarrow> u32 \<Rightarrow> 'a mem" where
  "helper_alf_dequeue_load_memcpy c_head p_tail q ptr elems =
     (if p_tail > c_head then
        memcpy ptr 0 (ring q) (uint c_head) (unat elems)
      else
        let dif = min (size_q q - c_head) elems;
            ptr1 = (if dif \<noteq> 0
                    then memcpy ptr 0 (ring q) (uint c_head) (unat dif)
                    else ptr)
        in memcpy ptr1 (uint dif) (ring q) 0 (unat (p_tail - dif)))"

text \<open>The two macros that select the helpers used by the queue operations.\<close>

definition helper_alf_enqueue_store ::
  "u32 \<Rightarrow> u32 \<Rightarrow> 'a alf_queue \<Rightarrow> 'a mem \<Rightarrow> u32 \<Rightarrow> 'a alf_queue" where
  "helper_alf_enqueue_store = helper_alf_enqueue_store_mask"

definition helper_alf_dequeue_load ::
  "u32 \<Rightarrow> u32 \<Rightarrow> 'a alf_queue \<Rightarrow> 'a mem \<Rightarrow> u32 \<Rightarrow> 'a mem" where
  "helper_alf_dequeue_load = helper_alf_dequeue_load_mask"

subsection \<open>Introspection\<close>

definition alf_queue_empty :: "'a alf_queue \<Rightarrow> bool" where
  "alf_queue_empty q =
     (let c_tail = tail (consumer q); p_tail = tail (producer q)
      in c_tail = p_tail)"

definition alf_queue_count :: "'a alf_queue \<Rightarrow> int" where
  "alf_queue_count q =
     (let c_head = head (consumer q); p_tail = tail (producer q);
          elems = (p_tail - c_head) AND mask_q q
      in sint elems)"

definition alf_queue_avail_space :: "'a alf_queue \<Rightarrow> int" where
  "alf_queue_avail_space q =
     (let p_head = head (producer q); c_tail = tail (consumer q);
          space = (c_tail - p_head - 1) AND mask_q q
      in sint space)"

subsection \<open>Enqueue and dequeue, one caller running alone\<close>

text \<open>
  The operations are embedded as one caller running with no other thread touching the
  queue. \<open>cmpxchg\<close> returns the new content of the cell and the value it found there.
  The busy-wait \<open>while (ACCESS_ONCE(x) != v) cpu_relax();\<close> re-reads a cell that nobody
  else writes: it is a loop that may run forever, so it is a partial function whose
  value \<open>None\<close> stands for a call that never returns.
\<close>

definition cmpxchg :: "u32 \<Rightarrow> u32 \<Rightarrow> u32 \<Rightarrow> u32 \<times> u32" where
  "cmpxchg cell old new = (if cell = old then new else cell, cell)"

partial_function (option) spin_until :: "u32 \<Rightarrow> u32 \<Rightarrow> unit option" where
  "spin_until cell v = (if cell \<noteq> v then spin_until cell v else Some ())"

partial_function (option) alf_mp_enqueue ::
  "'a alf_queue \<Rightarrow> 'a mem \<Rightarrow> u32 \<Rightarrow> ((errno + int) \<times> 'a alf_queue) option" where
  "alf_mp_enqueue q ptr n =
     (let mask = mask_q q;
          p_head = head (producer q);
          c_tail = tail (consumer q);
          space = (c_tail - p_head - 1) AND mask
      in if n > space then Some (Inl ENOBUFS, q)
         else
           let p_next = (p_head + n) AND mask;
               (cell, found) = cmpxchg (head (producer q)) p_head p_next;
               q1 = q\<lparr>producer := (producer q)\<lparr>head := cell\<rparr>\<rparr>
           in if found \<noteq> p_head then alf_mp_enqueue q1 ptr n
              else
                let q2 = helper_alf_enqueue_store p_head c_tail q1 ptr n
                in Option.bind (spin_until (tail (producer q2)) p_head)
                     (\<lambda>_. Some (Inr (sint n),
                                 q2\<lparr>producer := (producer q2)\<lparr>tail := p_next\<rparr>\<rparr>)))"

partial_function (option) alf_mc_dequeue ::
  "'a alf_queue \<Rightarrow> 'a mem \<Rightarrow> u32 \<Rightarrow> (int \<times> 'a alf_queue \<times> 'a mem) option" where
  "alf_mc_dequeue q ptr n =
     (let mask = mask_q q;
          c_head = head (consumer q);
          p_tail = tail (producer q);
          elems = (p_tail - c_head) AND mask
      in if elems = 0 then Some (0, q, ptr)
         else
           let elems = min elems n;
               c_next = (c_head + elems) AND mask;
               (cell, found) = cmpxchg (head (consumer q)) c_head c_next;
               q1 = q\<lparr>consumer := (consumer q)\<lparr>head := cell\<rparr>\<rparr>
           in if found \<noteq> c_head then alf_mc_dequeue q1 ptr n
              else
                let ptr' = helper_alf_dequeue_load c_head p_tail q1 ptr elems
                in Option.bind (spin_until (tail (consumer q1)) c_head)
                     (\<lambda>_. Some (sint elems,
                                 q1\<lparr>consumer := (consumer q1)\<lparr>tail := c_next\<rparr>\<rparr>,
                                 ptr')))"

subsection \<open>Well-formed queues and reachable states\<close>

text \<open>Modelled from the spec: \<open>alf_queue_alloc\<close> is declared in the header but its body
  is not part of the sources. The spec gives its result: \<open>size\<close> is a power of two,
  \<open>mask = size - 1\<close>, and the four cursors start at zero.\<close>

definition is_power_of_two :: "u32 \<Rightarrow> bool" where
  "is_power_of_two s = (\<exists>k \<in> {..<32}. s = 2 ^ k)"

definition alf_queue_initial :: "'a alf_queue \<Rightarrow> bool" where
  "alf_queue_initial q =
     (is_power_of_two (size_q q) \<and> mask_q q = size_q q - 1 \<and>
      head (producer q) = 0 \<and> tail (producer q) = 0 \<and>
      head (consumer q) = 0 \<and> tail (consumer q) = 0)"

text \<open>The shape every queue keeps: the geometry of the allocation, and cursors that
  are ring indices.\<close>

definition alf_queue_inv :: "'a alf_queue \<Rightarrow> bool" where
  "alf_queue_inv q =
     (is_power_of_two (size_q q) \<and> mask_q q = size_q q - 1 \<and>
      head (producer q) \<le> mask_q q \<and> tail (producer q) \<le> mask_q q \<and>
      head (consumer q) \<le> mask_q q \<and> tail (consumer q) \<le> mask_q q)"

text \<open>No reservation is waiting to be published, on either side.\<close>

definition producer_idle :: "'a alf_queue \<Rightarrow> bool" where
  "producer_idle q = (tail (producer q) = head (producer q))"

definition consumer_idle :: "'a alf_queue \<Rightarrow> bool" where
  "consumer_idle q = (tail (consumer q) = head (consumer q))"

text \<open>States reached from a fresh queue by calls that return, one after the other.\<close>

inductive alf_reachable :: "'a alf_queue \<Rightarrow> bool" where
  initial: "alf_queue_initial q \<Longrightarrow> alf_reachable q"
| enqueue: "alf_reachable q \<Longrightarrow> alf_mp_enqueue q ptr n = Some (r, q') \<Longrightarrow> alf_reachable q'"
| dequeue: "alf_reachable q \<Longrightarrow> alf_mc_dequeue q ptr n = Some (r, q', ptr') \<Longrightarrow> alf_reachable q'"

subsection \<open>Enqueue and dequeue, interleaved\<close>

text \<open>
  The same two functions, one shared access at a time, for several callers at once.
  A caller is at a program point and holds the locals it has read so far; a step
  performs the next access to the shared queue (\<open>ACCESS_ONCE\<close>, \<open>cmpxchg\<close>, the transfer
  helper, the store to a tail) together with the local computation that follows it.
  Accesses of different callers interleave in any order (sequential consistency; the
  transfer helper is taken as one step). A busy-wait that finds the tail elsewhere
  stays where it is.
\<close>

datatype enq_pc =
    E_start
  | E_have_head u32
  | E_reserving u32 u32 u32
  | E_storing u32 u32 u32
  | E_waiting u32 u32
  | E_publishing u32 u32
  | E_done "errno + int"

datatype deq_pc =
    D_start
  | D_have_head u32
  | D_reserving u32 u32 u32 u32
  | D_loading u32 u32 u32 u32
  | D_waiting u32 u32 u32
  | D_publishing u32 u32 u32
  | D_done int

fun enq_step :: "'a mem \<Rightarrow> u32 \<Rightarrow> enq_pc \<Rightarrow> 'a alf_queue \<Rightarrow> enq_pc \<times> 'a alf_queue" where
  "enq_step ptr n E_start q = (E_have_head (head (producer q)), q)"
| "enq_step ptr n (E_have_head p_head) q =
     (let c_tail = tail (consumer q);
          space = (c_tail - p_head - 1) AND mask_q q
      in if n > space then (E_done (Inl ENOBUFS), q)
         else (E_reserving p_head c_tail ((p_head + n) AND mask_q q), q))"
| "enq_step ptr n (E_reserving p_head c_tail p_next) q =
     (let (cell, found) = cmpxchg (head (producer q)) p_head p_next;
          q1 = q\<lparr>producer := (producer q)\<lparr>head := cell\<rparr>\<rparr>
      in if found \<noteq> p_head then (E_start, q1) else (E_storing p_head c_tail p_next, q1))"
| "enq_step ptr n (E_storing p_head c_tail p_next) q =
     (E_waiting p_head p_next, helper_alf_enqueue_store p_head c_tail q ptr n)"
| "enq_step ptr n (E_waiting p_head p_next) q =
     (if tail (producer q) \<noteq> p_head then (E_waiting p_head p_next, q)
      else (E_publishing p_head p_next, q))"
| "enq_step ptr n (E_publishing p_head p_next) q =
     (E_done (Inr (sint n)), q\<lparr>producer := (producer q)\<lparr>tail := p_next\<rparr>\<rparr>)"
| "enq_step ptr n (E_done r) q = (E_done r, q)"

fun deq_step :: "u32 \<Rightarrow> deq_pc \<times> 'a mem \<Rightarrow> 'a alf_queue \<Rightarrow> (deq_pc \<times> 'a mem) \<times> 'a alf_queue" where
  "deq_step n (D_start, ptr) q = ((D_have_head (head (consumer q)), ptr), q)"
| "deq_step n (D_have_head c_head, ptr) q =
     (let p_tail = tail (producer q);
          elems = (p_tail - c_head) AND mask_q q
      in if elems = 0 then ((D_done 0, ptr), q)
         else let elems = min elems n
              in ((D_reserving c_head p_tail elems ((c_head + elems) AND mask_q q), ptr), q))"
| "deq_step n (D_reserving c_head p_tail elems c_next, ptr) q =
     (let (cell, found) = cmpxchg (head (consumer q)) c_head c_next;
          q1 = q\<lparr>consumer := (consumer q)\<lparr>head := cell\<rparr>\<rparr>
      in if found \<noteq> c_head then ((D_start, ptr), q1)
         else ((D_loading c_head p_tail elems c_next, ptr), q1))"
| "deq_step n (D_loading c_head p_tail elems c_next, ptr) q =
     ((D_waiting c_head elems c_next, helper_alf_dequeue_load c_head p_tail q ptr elems), q)"
| "deq_step n (D_waiting c_head elems c_next, ptr) q =
     (if tail (consumer q) \<noteq> c_head then ((D_waiting c_head elems c_next, ptr), q)
      else ((D_publishing c_head elems c_next, ptr), q))"
| "deq_step n (D_publishing c_head elems c_next, ptr) q =
     ((D_done (sint elems), ptr), q\<lparr>consumer := (consumer q)\<lparr>tail := c_next\<rparr>\<rparr>)"
| "deq_step n (D_done r, ptr) q = ((D_done r, ptr), q)"

datatype 'a thread = Enqueue "'a mem" u32 enq_pc | Dequeue "'a mem" u32 deq_pc

fun thread_step :: "'a thread \<Rightarrow> 'a alf_queue \<Rightarrow> 'a thread \<times> 'a alf_queue" where
  "thread_step (Enqueue ptr n pc) q = (let (pc', q') = enq_step ptr n pc q in (Enqueue ptr n pc', q'))"
| "thread_step (Dequeue ptr n pc) q =
     (let ((pc', ptr'), q') = deq_step n (pc, ptr) q in (Dequeue ptr' n pc', q'))"

fun sched_step :: "nat \<Rightarrow> 'a alf_queue \<times> 'a thread list \<Rightarrow> 'a alf_queue \<times> 'a thread list" where
  "sched_step i (q, ts) =
     (if i < length ts then let (t', q') = thread_step (ts ! i) q in (q', ts[i := t']) else (q, ts))"

definition run :: "nat list \<Rightarrow> 'a alf_queue \<times> 'a thread list \<Rightarrow> 'a alf_queue \<times> 'a thread list" where
  "run sched s = fold sched_step sched s"

text \<open>The ring slots of a reservation: from a successful \<open>cmpxchg\<close> on a head until the
  store to the tail that publishes it.\<close>

fun ring_range :: "u32 \<Rightarrow> u32 \<Rightarrow> u32 \<Rightarrow> int list" where
  "ring_range m start n = map (\<lambda>i. uint ((start + of_nat i) AND m)) [0..<unat n]"

fun enq_reserved :: "u32 \<Rightarrow> 'a thread \<Rightarrow> int list" where
  "enq_reserved m (Enqueue ptr n (E_storing p_head c_tail p_next)) = ring_range m p_head n"
| "enq_reserved m (Enqueue ptr n (E_waiting p_head p_next)) = ring_range m p_head n"
| "enq_reserved m (Enqueue ptr n (E_publishing p_head p_next)) = ring_range m p_head n"
| "enq_reserved m t = []"

fun deq_reserved :: "u32 \<Rightarrow> 'a thread \<Rightarrow> int list" where
  "deq_reserved m (Dequeue ptr n (D_loading c_head p_tail elems c_next)) = ring_range m c_head elems"
| "deq_reserved m (Dequeue ptr n (D_waiting c_head elems c_next)) = ring_range m c_head elems"
| "deq_reserved m (Dequeue ptr n (D_publishing c_head elems c_next)) = ring_range m c_head elems"
| "deq_reserved m t = []"

fun pairwise_disjoint :: "int list list \<Rightarrow> bool" where
  "pairwise_disjoint [] = True"
| "pairwise_disjoint (r # rs) = (list_all (\<lambda>s. set r \<inter> set s = {}) rs \<and> pairwise_disjoint rs)"

definition reservations_disjoint :: "'a alf_queue \<times> 'a thread list \<Rightarrow> bool" where
  "reservations_disjoint s =
     (pairwise_disjoint (map (enq_reserved (mask_q (fst s))) (snd s)) \<and>
      pairwise_disjoint (map (deq_reserved (mask_q (fst s))) (snd s)))"

definition thread_pcs :: "'a alf_queue \<times> 'a thread list \<Rightarrow> (enq_pc + deq_pc) list" where
  "thread_pcs s = map (\<lambda>t. case t of Enqueue _ _ pc \<Rightarrow> Inl pc | Dequeue _ _ pc \<Rightarrow> Inr pc) (snd s)"

definition cursors :: "'a alf_queue \<times> 'a thread list \<Rightarrow> u32 list" where
  "cursors s = [head (producer (fst s)), tail (producer (fst s)), head (consumer (fst s)), tail (consumer (fst s))]"


subsection \<open>Notation for concrete states\<close>

text \<open>A queue of size \<open>sz\<close> whose producer cursors both stand at \<open>p\<close>, whose consumer
  cursors both stand at \<open>c\<close>, with ring memory \<open>r\<close>; used to write down concrete states.\<close>

definition alf_queue_of :: "u32 \<Rightarrow> u32 \<Rightarrow> u32 \<Rightarrow> 'a mem \<Rightarrow> 'a alf_queue" where
  "alf_queue_of sz p c r =
     \<lparr>size_q = sz, mask_q = sz - 1, flags = 0,
      producer = \<lparr>head = p, tail = p\<rparr>, consumer = \<lparr>head = c, tail = c\<rparr>, ring = r\<rparr>"

text \<open>The references a queue holds, oldest first: the slots from \<open>consumer.head\<close> up to
  \<open>producer.tail\<close>, the region the spec calls available to consume.\<close>

definition alf_contents :: "'a alf_queue \<Rightarrow> 'a list" where
  "alf_contents q =
     map (\<lambda>j. ring q (uint ((head (consumer q) + of_nat j) AND mask_q q)))
       [0..<unat ((tail (producer q) - head (consumer q)) AND mask_q q)]"

text \<open>Two runs on a ring of size 4 in which a caller is held up between its snapshot
  and its \<open>cmpxchg\<close> while the head travels once around the ring.\<close>

definition aba_producers :: "nat alf_queue \<times> nat thread list" where
  "aba_producers =
     (alf_queue_of 4 0 0 (\<lambda>_. 0),
      [Enqueue (\<lambda>_. 1) 3 E_start, Enqueue (\<lambda>_. 2) 1 E_start,
       Dequeue (\<lambda>_. 0) 1 D_start, Enqueue (\<lambda>_. 3) 3 E_start])"

definition aba_producers_schedule :: "nat list" where
  "aba_producers_schedule = [0, 0, 1, 1, 1, 1, 1, 1, 2, 2, 2, 2, 2, 2, 3, 3, 3, 0]"

definition aba_consumers :: "nat alf_queue \<times> nat thread list" where
  "aba_consumers =
     (alf_queue_of 4 0 0 (\<lambda>_. 0),
      [Enqueue (\<lambda>_. 1) 3 E_start, Dequeue (\<lambda>_. 0) 3 D_start, Dequeue (\<lambda>_. 0) 1 D_start,
       Enqueue (\<lambda>_. 2) 1 E_start, Dequeue (\<lambda>_. 0) 3 D_start])"

definition aba_consumers_schedule :: "nat list" where
  "aba_consumers_schedule =
     [0, 0, 0, 0, 0, 0, 1, 1, 2, 2, 2, 2, 2, 2, 3, 3, 3, 3, 3, 3, 4, 4, 4, 1]"

declare enqueue_store_simple_loop.simps [simp del]
declare enqueue_store_mask_loop.simps [simp del]
declare dequeue_load_simple_loop.simps [simp del]
declare dequeue_load_mask_loop.simps [simp del]

section \<open>Basic facts\<close>

lemma spin_until_same: "spin_until v v = Some ()"
  by (subst spin_until.simps) simp

lemma spin_until_Some:
  assumes "spin_until c v = Some y" shows "c = v"
  by (rule spin_until.raw_induct [where P = "\<lambda>c v y. c = v", OF _ assms])
     (simp split: if_splits)

lemma spin_until_diff: "c \<noteq> v \<Longrightarrow> spin_until c v = None"
  by (cases "spin_until c v") (auto dest: spin_until_Some)

lemma alf_queue_of_simps [simp]:
  "size_q (alf_queue_of sz p c r) = sz"
  "mask_q (alf_queue_of sz p c r) = sz - 1"
  "producer (alf_queue_of sz p c r) = \<lparr>head = p, tail = p\<rparr>"
  "consumer (alf_queue_of sz p c r) = \<lparr>head = c, tail = c\<rparr>"
  "ring (alf_queue_of sz p c r) = r"
  by (simp_all add: alf_queue_of_def)

subsection \<open>Words and masks\<close>

lemma is_power_of_two_mask:
  assumes "is_power_of_two s"
  obtains k where "k < 32" "s = 2 ^ k" "s - 1 = mask k"
  using assms by (auto simp: is_power_of_two_def mask_eq_exp_minus_1)

lemma exp_dvd_exp_32: "k < 32 \<Longrightarrow> (2::int) ^ k dvd 4294967296"
  using le_imp_power_dvd [of k 32 "2::int"] by simp

lemma uint_and_mask: "uint ((x::u32) AND mask k) = uint x mod 2 ^ k"
proof -
  have "uint (x AND mask k) = uint (take_bit k x)"
    by (simp only: take_bit_eq_mask)
  also have "\<dots> = take_bit k (uint x)"
    by (rule unsigned_take_bit_eq)
  also have "\<dots> = uint x mod 2 ^ k"
    by (rule take_bit_eq_mod)
  finally show ?thesis .
qed

lemma uint_mask_u32: "k < 32 \<Longrightarrow> uint (mask k :: u32) = 2 ^ k - 1"
  unfolding uint_mask_eq by (simp add: min_def mask_eq_exp_minus_1)

lemma le_mask_iff: "k < 32 \<Longrightarrow> ((x::u32) \<le> mask k) = (uint x < 2 ^ k)"
  by (simp add: word_le_def uint_mask_u32)

lemma le_mask_and: "k < 32 \<Longrightarrow> (x::u32) \<le> mask k \<Longrightarrow> x AND mask k = x"
  by (simp add: mask_eq_iff le_mask_iff)

lemma exp_le_31: "k < 32 \<Longrightarrow> (2::int) ^ k \<le> 2 ^ 31"
  by (rule power_increasing) simp_all

lemma sint_le_mask: 
  assumes "k < 32" "(x::u32) \<le> mask k" shows "sint x = uint x"
proof -
  have "uint x < 2 ^ 31" using assms exp_le_31 [of k] by (simp add: le_mask_iff)
  moreover have "- (2 ^ 31) \<le> uint x"
    by (rule order_trans [of _ 0]) simp_all
  ultimately have "signed_take_bit 31 (uint x) = uint x"
    by (intro signed_take_bit_int_eq_self) simp_all
  then show ?thesis
    by (simp add: sint_uint)
qed

lemma uint_add_and_mask:
  "k < 32 \<Longrightarrow> uint (((a::u32) + b) AND mask k) = (uint a + uint b) mod 2 ^ k"
  by (simp add: uint_and_mask uint_word_ariths mod_mod_cancel exp_dvd_exp_32)

lemma uint_sub_and_mask:
  "k < 32 \<Longrightarrow> uint (((a::u32) - b) AND mask k) = (uint a - uint b) mod 2 ^ k"
  by (simp add: uint_and_mask uint_word_ariths mod_mod_cancel exp_dvd_exp_32)

lemma count_plus_space:
  "(((p::u32) - c) AND m) + ((c - p - 1) AND m) = m"
proof -
  have e: "c - p - 1 = NOT (p - c)" by (simp add: not_eq_complement)
  have "((p - c) AND m) + (NOT (p - c) AND m) = ((p - c) AND m) OR (NOT (p - c) AND m)"
    by (rule disjunctive_add) (auto simp: bit_simps)
  also have "\<dots> = m"
    by (rule bit_eqI) (auto simp: bit_simps)
  finally show ?thesis by (simp add: e)
qed

subsection \<open>The masked loops as folds over the offsets\<close>

lemma unat_Suc_less: "(i::u32) < n \<Longrightarrow> unat (i + 1) = Suc (unat i)"
proof -
  assume "i < n"
  then have "unat i < unat n" by (simp add: word_less_nat_alt)
  moreover have "unat n < 2 ^ 32" using unsigned_less [of n, where 'a = nat] by simp
  ultimately show ?thesis by (simp add: unat_word_ariths)
qed

lemma not_less_unat_diff: "\<not> (i::u32) < n \<Longrightarrow> unat n - unat i = 0"
  by (simp add: word_less_nat_alt)

lemma upt_shift: "0 < m \<Longrightarrow> [0..<m] = 0 # map Suc [0..<m - 1]"
  by (cases m) (simp_all add: upt_conv_Cons map_Suc_upt del: upt_Suc)

lemma fold_upd_other:
  "(\<forall>j \<in> set js. a \<noteq> addr j) \<Longrightarrow> fold (\<lambda>j r. r(addr j := val j)) js r a = r a"
  by (induction js arbitrary: r) simp_all

lemma fold_upd_at:
  "j \<in> set js \<Longrightarrow> inj_on addr (set js) \<Longrightarrow>
   fold (\<lambda>j r. r(addr j := val j)) js r (addr j) = val j"
proof (induction js arbitrary: r)
  case Nil
  then show ?case by simp
next
  case (Cons x xs)
  have inj: "inj_on addr (set xs)" using Cons.prems(2) by (simp add: inj_on_def)
  show ?case
  proof (cases "j \<in> set xs")
    case True
    then show ?thesis using Cons.IH [OF True inj] by simp
  next
    case False
    with Cons.prems(1) have jx: "j = x" by simp
    have "\<forall>j' \<in> set xs. addr x \<noteq> addr j'"
      using Cons.prems(2) False jx by (auto simp: inj_on_def)
    then have "fold (\<lambda>j r. r(addr j := val j)) xs (r(addr x := val x)) (addr x)
        = (r(addr x := val x)) (addr x)"
      by (rule fold_upd_other)
    also have "\<dots> = val x"
      by simp
    finally show ?thesis using jx by (simp del: fun_upd_apply)
  qed
qed

lemma enqueue_store_mask_loop_fold:
  "enqueue_store_mask_loop n i index q ptr =
     q\<lparr>ring := fold (\<lambda>j r. r(uint ((index + of_nat j) AND mask_q q) := ptr (sint (i + of_nat j))))
                   [0..<unat n - unat i] (ring q)\<rparr>"
proof (induction n i index q ptr rule: enqueue_store_mask_loop.induct)
  case (1 n i index q ptr)
  show ?case
  proof (cases "i < n")
    case True
    have pos: "0 < unat n - unat i" using True by (simp add: word_less_nat_alt)
    have len: "unat n - unat (i + 1) = unat n - unat i - 1"
      using True by (simp add: unat_Suc_less)
    show ?thesis
      apply (subst enqueue_store_mask_loop.simps)
      apply (simp only: True if_True "1.IH" [OF True] len)
      apply (subst upt_shift [OF pos])
      apply (simp add: fold_map comp_def add_ac)
      done
  next
    case False
    then show ?thesis
      by (subst enqueue_store_mask_loop.simps) (simp add: not_less_unat_diff)
  qed
qed

lemma dequeue_load_mask_loop_fold:
  "dequeue_load_mask_loop elems i index q ptr =
     fold (\<lambda>j p. p(sint (i + of_nat j) := ring q (uint ((index + of_nat j) AND mask_q q))))
       [0..<unat elems - unat i] ptr"
proof (induction elems i index q ptr rule: dequeue_load_mask_loop.induct)
  case (1 n i index q ptr)
  show ?case
  proof (cases "i < n")
    case True
    have pos: "0 < unat n - unat i" using True by (simp add: word_less_nat_alt)
    have len: "unat n - unat (i + 1) = unat n - unat i - 1"
      using True by (simp add: unat_Suc_less)
    show ?thesis
      apply (subst dequeue_load_mask_loop.simps)
      apply (simp only: True if_True "1.IH" [OF True] len)
      apply (subst upt_shift [OF pos])
      apply (simp add: fold_map comp_def add_ac)
      done
  next
    case False
    then show ?thesis
      by (subst dequeue_load_mask_loop.simps) (simp add: not_less_unat_diff)
  qed
qed

lemma mod_add_inj:
  assumes "0 \<le> j" "j < (M::int)" "0 \<le> j'" "j' < M" "(H + j) mod M = (H + j') mod M"
  shows "j = j'"
proof (rule ccontr)
  assume ne: "j \<noteq> j'"
  have "M dvd (H + j) - (H + j')" using assms(5) by (simp add: mod_eq_dvd_iff)
  then have "M dvd j - j'" by simp
  then have "\<bar>M\<bar> \<le> \<bar>j - j'\<bar>" using ne by (intro dvd_imp_le_int) simp_all
  with assms show False by linarith
qed

subsection \<open>The operations unfolded\<close>

lemma helper_alf_enqueue_store_mask_fold:
  "helper_alf_enqueue_store_mask p_head c_tail q ptr n =
     q\<lparr>ring := fold (\<lambda>j r. r(uint ((p_head + of_nat j) AND mask_q q) := ptr (sint (of_nat j :: u32))))
                   [0..<unat n] (ring q)\<rparr>"
  by (simp add: helper_alf_enqueue_store_mask_def enqueue_store_mask_loop_fold)

lemma helper_alf_dequeue_load_mask_fold:
  "helper_alf_dequeue_load_mask c_head p_tail q ptr elems =
     fold (\<lambda>j p. p(sint (of_nat j :: u32) := ring q (uint ((c_head + of_nat j) AND mask_q q))))
       [0..<unat elems] ptr"
  by (simp add: helper_alf_dequeue_load_mask_def dequeue_load_mask_loop_fold)

lemma helper_store_fields [simp]:
  "size_q (helper_alf_enqueue_store_mask h t q ptr n) = size_q q"
  "mask_q (helper_alf_enqueue_store_mask h t q ptr n) = mask_q q"
  "flags (helper_alf_enqueue_store_mask h t q ptr n) = flags q"
  "producer (helper_alf_enqueue_store_mask h t q ptr n) = producer q"
  "consumer (helper_alf_enqueue_store_mask h t q ptr n) = consumer q"
  by (simp_all add: helper_alf_enqueue_store_mask_fold)

lemma helper_store_producer_upd:
  "helper_alf_enqueue_store_mask h t (q\<lparr>producer := p\<rparr>) ptr n =
   (helper_alf_enqueue_store_mask h t q ptr n)\<lparr>producer := p\<rparr>"
  by (simp add: helper_alf_enqueue_store_mask_fold)

lemma helper_load_consumer_upd:
  "helper_alf_dequeue_load_mask h t (q\<lparr>consumer := c\<rparr>) ptr n =
   helper_alf_dequeue_load_mask h t q ptr n"
  by (simp add: helper_alf_dequeue_load_mask_fold)

lemma alf_mp_enqueue_fail:
  "(tail (consumer q) - head (producer q) - 1) AND mask_q q < n \<Longrightarrow>
   alf_mp_enqueue q ptr n = Some (Inl ENOBUFS, q)"
  by (subst alf_mp_enqueue.simps) (simp add: Let_def)

lemma alf_mp_enqueue_ok:
  assumes "n \<le> (tail (consumer q) - head (producer q) - 1) AND mask_q q"
    and "tail (producer q) = head (producer q)"
  shows "alf_mp_enqueue q ptr n =
     Some (Inr (sint n),
       (helper_alf_enqueue_store_mask (head (producer q)) (tail (consumer q)) q ptr n)
         \<lparr>producer := \<lparr>head = (head (producer q) + n) AND mask_q q,
                       tail = (head (producer q) + n) AND mask_q q\<rparr>\<rparr>)"
  using assms
  by (subst alf_mp_enqueue.simps)
     (simp add: Let_def cmpxchg_def helper_alf_enqueue_store_def helper_store_producer_upd
       spin_until_same not_less [symmetric])

lemma alf_mp_enqueue_stuck:
  assumes "n \<le> (tail (consumer q) - head (producer q) - 1) AND mask_q q"
    and "tail (producer q) \<noteq> head (producer q)"
  shows "alf_mp_enqueue q ptr n = None"
  using assms
  by (subst alf_mp_enqueue.simps)
     (simp add: Let_def cmpxchg_def helper_alf_enqueue_store_def helper_store_producer_upd
       spin_until_diff not_less [symmetric])

lemma alf_mc_dequeue_empty:
  "(tail (producer q) - head (consumer q)) AND mask_q q = 0 \<Longrightarrow>
   alf_mc_dequeue q ptr n = Some (0, q, ptr)"
  by (subst alf_mc_dequeue.simps) (simp add: Let_def)

lemma alf_mc_dequeue_ok:
  assumes "(tail (producer q) - head (consumer q)) AND mask_q q \<noteq> 0"
    and "tail (consumer q) = head (consumer q)"
  shows "alf_mc_dequeue q ptr n =
     Some (sint (min ((tail (producer q) - head (consumer q)) AND mask_q q) n),
       q\<lparr>consumer :=
           \<lparr>head = (head (consumer q) + min ((tail (producer q) - head (consumer q)) AND mask_q q) n) AND mask_q q,
            tail = (head (consumer q) + min ((tail (producer q) - head (consumer q)) AND mask_q q) n) AND mask_q q\<rparr>\<rparr>,
       helper_alf_dequeue_load_mask (head (consumer q)) (tail (producer q)) q ptr
         (min ((tail (producer q) - head (consumer q)) AND mask_q q) n))"
  using assms
  by (subst alf_mc_dequeue.simps)
     (simp add: Let_def cmpxchg_def helper_alf_dequeue_load_def helper_load_consumer_upd
       spin_until_same)

lemma alf_mc_dequeue_stuck:
  assumes "(tail (producer q) - head (consumer q)) AND mask_q q \<noteq> 0"
    and "tail (consumer q) \<noteq> head (consumer q)"
  shows "alf_mc_dequeue q ptr n = None"
  using assms
  by (subst alf_mc_dequeue.simps)
     (simp add: Let_def cmpxchg_def helper_alf_dequeue_load_def helper_load_consumer_upd
       spin_until_diff)

subsection \<open>Ring indices and the content of the masked transfers\<close>

lemma alf_queue_inv_mask:
  assumes "alf_queue_inv q"
  obtains k where "k < 32" "size_q q = 2 ^ k" "mask_q q = mask k"
  using assms unfolding alf_queue_inv_def
  by (metis is_power_of_two_mask)

lemma exp_lt_32: "k < 32 \<Longrightarrow> (2::nat) ^ k < 4294967296"
  using power_strict_increasing [of k 32 "2::nat"] by simp

lemma uint_of_nat_small: "j < 4294967296 \<Longrightarrow> uint (of_nat j :: u32) = int j"
  by (simp add: uint_nat unat_of_nat)

lemma sint_of_nat_small: "j < 2147483648 \<Longrightarrow> sint (of_nat j :: u32) = int j"
proof -
  assume j: "j < 2147483648"
  have "(of_nat j :: u32) \<le> mask 31"
    using j by (simp add: le_mask_iff uint_of_nat_small)
  then have "sint (of_nat j :: u32) = uint (of_nat j :: u32)"
    by (intro sint_le_mask [of 31]) simp_all
  then show ?thesis using j by (simp add: uint_of_nat_small)
qed

lemma uint_ring_index:
  assumes "k < 32" "j < 2 ^ k"
  shows "uint (((b::u32) + of_nat j) AND mask k) = (uint b + int j) mod 2 ^ k"
proof -
  have "j < 4294967296" using assms exp_lt_32 [of k] by simp
  then show ?thesis using assms by (simp add: uint_add_and_mask uint_of_nat_small)
qed

lemma ring_index_inj:
  assumes "k < 32" "j < 2 ^ k" "j' < 2 ^ k"
    and "uint (((b::u32) + of_nat j) AND mask k) = uint ((b + of_nat j') AND mask k)"
  shows "j = j'"
proof -
  have eq: "(uint b + int j) mod 2 ^ k = (uint b + int j') mod 2 ^ k"
    using assms(4) by (simp only: uint_ring_index [OF assms(1,2)] uint_ring_index [OF assms(1,3)])
  have "int j < int (2 ^ k)" "int j' < int (2 ^ k)"
    using assms(2,3) by (simp_all only: of_nat_less_iff)
  then have lt: "int j < 2 ^ k" "int j' < 2 ^ k"
    by simp_all
  have "int j = int j'"
    by (rule mod_add_inj [OF _ lt(1) _ lt(2) eq]) simp_all
  then show ?thesis by (simp only: of_nat_eq_iff)
qed

lemma ring_index_inj_on:
  "k < 32 \<Longrightarrow> N \<le> 2 ^ k \<Longrightarrow>
   inj_on (\<lambda>j. uint (((b::u32) + of_nat j) AND mask k)) (set [0..<N])"
  by (rule inj_onI) (auto intro: ring_index_inj)

lemma unat_le_mask: "k < 32 \<Longrightarrow> (n::u32) \<le> mask k \<Longrightarrow> unat n < 2 ^ k"
proof -
  assume "k < 32" "n \<le> mask k"
  then have "uint n < 2 ^ k" by (simp add: le_mask_iff)
  then have "int (unat n) < int (2 ^ k)" by simp
  then show ?thesis by (simp only: of_nat_less_iff)
qed

lemma exp_le_31_nat: "k < 32 \<Longrightarrow> (2::nat) ^ k \<le> 2147483648"
  using power_increasing [of k 31 "2::nat"] by simp

text \<open>What the masked store leaves in the ring.\<close>

lemma helper_store_ring_at:
  assumes "k < 32" "mask_q q = mask k" "n \<le> mask k" "j < unat n"
  shows "ring (helper_alf_enqueue_store_mask h t q ptr n) (uint ((h + of_nat j) AND mask k))
         = ptr (int j)"
proof -
  have n: "unat n < 2 ^ k" using assms by (simp add: unat_le_mask)
  have "j < 2147483648" using n assms(4) exp_le_31_nat [OF assms(1)] by simp
  then have s: "sint (of_nat j :: u32) = int j" by (rule sint_of_nat_small)
  have "fold (\<lambda>j r. r(uint ((h + of_nat j) AND mask k) := ptr (sint (of_nat j :: u32))))
          [0..<unat n] (ring q) (uint ((h + of_nat j) AND mask k)) = ptr (sint (of_nat j :: u32))"
    using assms(1,4) n by (intro fold_upd_at ring_index_inj_on) simp_all
  then show ?thesis
    unfolding helper_alf_enqueue_store_mask_fold assms(2) s by simp
qed

lemma helper_store_ring_other:
  assumes "\<forall>j < unat n. a \<noteq> uint ((h + of_nat j) AND mask_q q)"
  shows "ring (helper_alf_enqueue_store_mask h t q ptr n) a = ring q a"
proof -
  have "\<forall>j \<in> set [0..<unat n]. a \<noteq> uint ((h + of_nat j) AND mask_q q)"
    using assms by simp
  then have "fold (\<lambda>j r. r(uint ((h + of_nat j) AND mask_q q) := ptr (sint (of_nat j :: u32))))
          [0..<unat n] (ring q) a = ring q a"
    by (rule fold_upd_other)
  then show ?thesis
    unfolding helper_alf_enqueue_store_mask_fold by simp
qed

text \<open>What the masked load leaves in the caller's buffer.\<close>

lemma sint_of_nat_inj_on: "N \<le> 2147483648 \<Longrightarrow> inj_on (\<lambda>j. sint (of_nat j :: u32)) (set [0..<N])"
  by (rule inj_onI) (simp add: sint_of_nat_small)

lemma helper_load_at:
  assumes "k < 32" "elems \<le> mask k" "j < unat elems"
  shows "helper_alf_dequeue_load_mask h t q ptr elems (int j)
         = ring q (uint ((h + of_nat j) AND mask_q q))"
proof -
  have n: "unat elems < 2 ^ k" using assms by (simp add: unat_le_mask)
  then have n': "unat elems \<le> 2147483648" using exp_le_31_nat [OF assms(1)] by simp
  then have s: "sint (of_nat j :: u32) = int j" using assms(3) by (intro sint_of_nat_small) simp
  have "fold (\<lambda>j p. p(sint (of_nat j :: u32) := ring q (uint ((h + of_nat j) AND mask_q q))))
          [0..<unat elems] ptr (sint (of_nat j :: u32)) = ring q (uint ((h + of_nat j) AND mask_q q))"
    using assms(3) n' by (intro fold_upd_at sint_of_nat_inj_on) simp_all
  then show ?thesis
    unfolding helper_alf_dequeue_load_mask_fold s .
qed

lemma helper_load_other:
  assumes "k < 32" "elems \<le> mask k" "\<not> (0 \<le> a \<and> a < uint elems)"
  shows "helper_alf_dequeue_load_mask h t q ptr elems a = ptr a"
proof -
  have n: "unat elems < 2 ^ k" using assms by (simp add: unat_le_mask)
  then have n': "unat elems \<le> 2147483648" using exp_le_31_nat [OF assms(1)] by simp
  have "\<forall>j \<in> set [0..<unat elems]. a \<noteq> sint (of_nat j :: u32)"
  proof
    fix j assume "j \<in> set [0..<unat elems]"
    then have j: "j < unat elems" by simp
    then have "sint (of_nat j :: u32) = int j" using n' by (intro sint_of_nat_small) simp
    moreover have "int j < uint elems" using j by (simp only: uint_nat of_nat_less_iff)
    moreover have "0 \<le> int j" by simp
    ultimately show "a \<noteq> sint (of_nat j :: u32)" using assms(3) by metis
  qed
  then have "fold (\<lambda>j p. p(sint (of_nat j :: u32) := ring q (uint ((h + of_nat j) AND mask_q q))))
          [0..<unat elems] ptr a = ptr a"
    by (rule fold_upd_other)
  then show ?thesis by (simp only: helper_alf_dequeue_load_mask_fold)
qed

subsection \<open>Cursor arithmetic\<close>

lemma exp_le_31_int: "k < 32 \<Longrightarrow> (2::int) ^ k \<le> 2147483648"
  using power_increasing [of k 31 "2::int"] by simp

lemma uint_sub1_and_mask:
  assumes "k < 32"
  shows "uint (((a::u32) - b - 1) AND mask k) = (uint a - uint b - 1) mod 2 ^ k"
proof -
  have "uint ((a - b - 1) AND mask k) = (uint (a - b) - uint (1::u32)) mod 2 ^ k"
    by (rule uint_sub_and_mask [OF assms])
  also have "\<dots> = ((uint a - uint b) mod 4294967296 - 1) mod 2 ^ k"
    by (simp add: uint_word_ariths)
  also have "\<dots> = ((uint a - uint b) mod 4294967296 mod 2 ^ k - 1) mod 2 ^ k"
    by (simp add: mod_simps)
  also have "\<dots> = ((uint a - uint b) mod 2 ^ k - 1) mod 2 ^ k"
    by (simp only: mod_mod_cancel [OF exp_dvd_exp_32 [OF assms]])
  also have "\<dots> = (uint a - uint b - 1) mod 2 ^ k"
    by (simp add: mod_simps)
  finally show ?thesis .
qed

lemma uint_count_plus_space:
  assumes "k < 32"
  shows "uint (((p::u32) - c) AND mask k) + uint ((c - p - 1) AND mask k) = 2 ^ k - 1"
proof -
  let ?a = "(p - c) AND mask k" and ?b = "(c - p - 1) AND mask k"
  have "uint ?a < 2 ^ k" "uint ?b < 2 ^ k"
    by (simp_all add: and_mask_lt_2p)
  then have "uint ?a + uint ?b < 2 ^ LENGTH(32)"
    using exp_le_31_int [OF assms] by simp
  then have "uint (?a + ?b) = uint ?a + uint ?b"
    by (rule uint_add_lem [THEN iffD1])
  then show ?thesis
    by (simp add: count_plus_space uint_mask_u32 [OF assms])
qed

text \<open>The fill level after a store of \<open>n \<le> space\<close> references, and after a load.\<close>

lemma uint_count_after_enqueue:
  assumes "k < 32" "n \<le> (c - p - 1) AND mask k"
  shows "uint ((((p::u32) + n) AND mask k) - c AND mask k) = uint ((p - c) AND mask k) + uint n"
proof -
  let ?M = "(2::int) ^ k"
  let ?X = "uint ((p - c) AND mask k)"
  have X: "?X = (uint p - uint c) mod ?M" by (rule uint_sub_and_mask [OF assms(1)])
  have "uint n \<le> uint ((c - p - 1) AND mask k)" using assms(2) by (simp add: word_le_def)
  then have le: "?X + uint n \<le> ?M - 1"
    using uint_count_plus_space [OF assms(1), of p c] by linarith
  have "0 \<le> ?X" by simp
  have "uint (((p + n) AND mask k) - c AND mask k) = ((uint p + uint n) mod ?M - uint c) mod ?M"
    by (simp only: uint_sub_and_mask [OF assms(1)] uint_add_and_mask [OF assms(1)])
  also have "\<dots> = ((uint p - uint c) mod ?M + uint n) mod ?M"
    by (simp add: mod_simps algebra_simps)
  also have "\<dots> = (?X + uint n) mod ?M" by (simp only: X)
  also have "\<dots> = ?X + uint n"
    using le \<open>0 \<le> ?X\<close> by (intro mod_pos_pos_trivial) simp_all
  finally show ?thesis .
qed

lemma uint_space_after_enqueue:
  assumes "k < 32" "n \<le> (c - p - 1) AND mask k"
  shows "uint ((c - (((p::u32) + n) AND mask k) - 1) AND mask k) = uint ((c - p - 1) AND mask k) - uint n"
proof -
  let ?M = "(2::int) ^ k"
  let ?S = "uint ((c - p - 1) AND mask k)"
  have S: "?S = (uint c - uint p - 1) mod ?M" by (rule uint_sub1_and_mask [OF assms(1)])
  have le: "uint n \<le> ?S" using assms(2) by (simp add: word_le_def)
  have lt: "?S < ?M" by (simp add: and_mask_lt_2p)
  have "uint ((c - ((p + n) AND mask k) - 1) AND mask k) = (uint c - (uint p + uint n) mod ?M - 1) mod ?M"
    by (simp only: uint_sub1_and_mask [OF assms(1)] uint_add_and_mask [OF assms(1)])
  also have "\<dots> = (uint c - 1 - (uint p + uint n) mod ?M) mod ?M"
    by (simp add: algebra_simps)
  also have "\<dots> = (uint c - 1 - (uint p + uint n)) mod ?M"
    by (rule mod_diff_right_eq)
  also have "\<dots> = ((uint c - uint p - 1) - uint n) mod ?M"
    by (simp add: algebra_simps)
  also have "\<dots> = ((uint c - uint p - 1) mod ?M - uint n) mod ?M"
    by (rule mod_diff_left_eq [symmetric])
  also have "\<dots> = (?S - uint n) mod ?M" by (simp only: S)
  also have "\<dots> = ?S - uint n"
    using le lt uint_ge_0 [of n] by (intro mod_pos_pos_trivial) linarith+
  finally show ?thesis .
qed

lemma uint_count_after_dequeue:
  assumes "k < 32" "e \<le> (p - c) AND mask k"
  shows "uint ((p - (((c::u32) + e) AND mask k)) AND mask k) = uint ((p - c) AND mask k) - uint e"
proof -
  let ?M = "(2::int) ^ k"
  let ?X = "uint ((p - c) AND mask k)"
  have X: "?X = (uint p - uint c) mod ?M" by (rule uint_sub_and_mask [OF assms(1)])
  have le: "uint e \<le> ?X" using assms(2) by (simp add: word_le_def)
  have lt: "?X < ?M" by (simp add: and_mask_lt_2p)
  have "uint ((p - ((c + e) AND mask k)) AND mask k) = (uint p - (uint c + uint e) mod ?M) mod ?M"
    by (simp only: uint_sub_and_mask [OF assms(1)] uint_add_and_mask [OF assms(1)])
  also have "\<dots> = (uint p - (uint c + uint e)) mod ?M"
    by (rule mod_diff_right_eq)
  also have "\<dots> = ((uint p - uint c) - uint e) mod ?M"
    by (simp add: algebra_simps)
  also have "\<dots> = ((uint p - uint c) mod ?M - uint e) mod ?M"
    by (rule mod_diff_left_eq [symmetric])
  also have "\<dots> = (?X - uint e) mod ?M" by (simp only: X)
  also have "\<dots> = ?X - uint e"
    using le lt uint_ge_0 [of e] by (intro mod_pos_pos_trivial) linarith+
  finally show ?thesis .
qed

subsection \<open>Every call that returns, and the states it can reach\<close>

lemma alf_mp_enqueue_cases:
  assumes "alf_mp_enqueue q ptr n = Some (r, q')"
  shows "((tail (consumer q) - head (producer q) - 1) AND mask_q q < n \<and>
            r = Inl ENOBUFS \<and> q' = q) \<or>
         (n \<le> (tail (consumer q) - head (producer q) - 1) AND mask_q q \<and>
            tail (producer q) = head (producer q) \<and> r = Inr (sint n) \<and>
            q' = (helper_alf_enqueue_store_mask (head (producer q)) (tail (consumer q)) q ptr n)
                   \<lparr>producer := \<lparr>head = (head (producer q) + n) AND mask_q q,
                                 tail = (head (producer q) + n) AND mask_q q\<rparr>\<rparr>)"
proof (cases "(tail (consumer q) - head (producer q) - 1) AND mask_q q < n")
  case True
  then show ?thesis using assms by (simp add: alf_mp_enqueue_fail)
next
  case False
  then have le: "n \<le> (tail (consumer q) - head (producer q) - 1) AND mask_q q" by simp
  show ?thesis
  proof (cases "tail (producer q) = head (producer q)")
    case True
    then show ?thesis using assms le by (simp add: alf_mp_enqueue_ok)
  next
    case False
    then show ?thesis using assms le by (simp add: alf_mp_enqueue_stuck)
  qed
qed

lemma alf_mc_dequeue_cases:
  assumes "alf_mc_dequeue q ptr n = Some (r, q', ptr')"
  shows "((tail (producer q) - head (consumer q)) AND mask_q q = 0 \<and>
            r = 0 \<and> q' = q \<and> ptr' = ptr) \<or>
         ((tail (producer q) - head (consumer q)) AND mask_q q \<noteq> 0 \<and>
            tail (consumer q) = head (consumer q) \<and>
            r = sint (min ((tail (producer q) - head (consumer q)) AND mask_q q) n) \<and>
            q' = q\<lparr>consumer :=
                    \<lparr>head = (head (consumer q) + min ((tail (producer q) - head (consumer q)) AND mask_q q) n) AND mask_q q,
                     tail = (head (consumer q) + min ((tail (producer q) - head (consumer q)) AND mask_q q) n) AND mask_q q\<rparr>\<rparr> \<and>
            ptr' = helper_alf_dequeue_load_mask (head (consumer q)) (tail (producer q)) q ptr
                     (min ((tail (producer q) - head (consumer q)) AND mask_q q) n))"
proof (cases "(tail (producer q) - head (consumer q)) AND mask_q q = 0")
  case True
  then show ?thesis using assms by (simp add: alf_mc_dequeue_empty)
next
  case ne: False
  show ?thesis
  proof (cases "tail (consumer q) = head (consumer q)")
    case True
    then show ?thesis using assms ne by (simp add: alf_mc_dequeue_ok)
  next
    case False
    then show ?thesis using assms ne by (simp add: alf_mc_dequeue_stuck)
  qed
qed

lemma alf_queue_initial_inv:
  "alf_queue_initial q \<Longrightarrow> alf_queue_inv q \<and> producer_idle q \<and> consumer_idle q"
  by (simp add: alf_queue_initial_def alf_queue_inv_def producer_idle_def consumer_idle_def)

lemma alf_mp_enqueue_inv:
  assumes "alf_mp_enqueue q ptr n = Some (r, q')"
    and "alf_queue_inv q \<and> producer_idle q \<and> consumer_idle q"
  shows "alf_queue_inv q' \<and> producer_idle q' \<and> consumer_idle q'"
proof -
  consider "q' = q"
    | p where "q' = (helper_alf_enqueue_store_mask (head (producer q)) (tail (consumer q)) q ptr n)
                      \<lparr>producer := \<lparr>head = p AND mask_q q, tail = p AND mask_q q\<rparr>\<rparr>"
    using alf_mp_enqueue_cases [OF assms(1)] by blast
  then show ?thesis
  proof cases
    case 1
    then show ?thesis using assms(2) by simp
  next
    case 2
    then show ?thesis
      using assms(2)
      by (clarsimp simp: alf_queue_inv_def producer_idle_def consumer_idle_def word_and_le1)
  qed
qed

lemma alf_mc_dequeue_inv:
  assumes "alf_mc_dequeue q ptr n = Some (r, q', ptr')"
    and "alf_queue_inv q \<and> producer_idle q \<and> consumer_idle q"
  shows "alf_queue_inv q' \<and> producer_idle q' \<and> consumer_idle q'"
proof -
  consider "q' = q"
    | c where "q' = q\<lparr>consumer := \<lparr>head = c AND mask_q q, tail = c AND mask_q q\<rparr>\<rparr>"
    using alf_mc_dequeue_cases [OF assms(1)] by blast
  then show ?thesis
  proof cases
    case 1
    then show ?thesis using assms(2) by simp
  next
    case 2
    then show ?thesis
      using assms(2)
      by (clarsimp simp: alf_queue_inv_def producer_idle_def consumer_idle_def word_and_le1)
  qed
qed

lemma alf_reachable_inv:
  "alf_reachable q \<Longrightarrow> alf_queue_inv q \<and> producer_idle q \<and> consumer_idle q"
proof (induction rule: alf_reachable.induct)
  case (initial q)
  then show ?case by (rule alf_queue_initial_inv)
next
  case (enqueue q ptr n r q')
  show ?case by (rule alf_mp_enqueue_inv [OF enqueue.hyps(2) enqueue.IH])
next
  case (dequeue q ptr n r q' ptr')
  show ?case by (rule alf_mc_dequeue_inv [OF dequeue.hyps(2) dequeue.IH])
qed

section \<open>The transfer helpers\<close>

text \<open>
  C1. The claim is that the wrap-check helpers and the masked helpers do the same. They
  do not when the range wraps: in a ring of size 4 (mask 3) with the start index 3 and
  a batch of two references, the wrap-check store writes slot 3 and then the cell at
  offset 4, one past the end of the ring, and never writes slot 0, while the masked
  store writes slots 3 and 0. In the same way the wrap-check load returns the content
  of slot 3 and of the cell at offset 4, the masked load the content of slots 3 and 0.
\<close>

theorem helper_simple_differs_from_mask:
  "ring (helper_alf_enqueue_store_simple 3 2
           (alf_queue_of 4 3 2 (\<lambda>_. 0 :: nat)) ((\<lambda>_. 0)(0 := 10, 1 := 11)) 2)
     = (\<lambda>_. 0)(3 := 10, 4 := 11) \<and>
   ring (helper_alf_enqueue_store_mask 3 2
           (alf_queue_of 4 3 2 (\<lambda>_. 0 :: nat)) ((\<lambda>_. 0)(0 := 10, 1 := 11)) 2)
     = (\<lambda>_. 0)(3 := 10, 0 := 11) \<and>
   map (helper_alf_dequeue_load_simple 3 1
           (alf_queue_of 4 1 3 ((\<lambda>_. 0 :: nat)(0 := 20, 3 := 23, 4 := 99))) (\<lambda>_. 0) 2) [0, 1]
     = [23, 99] \<and>
   map (helper_alf_dequeue_load_mask 3 1
           (alf_queue_of 4 1 3 ((\<lambda>_. 0 :: nat)(0 := 20, 3 := 23, 4 := 99))) (\<lambda>_. 0) 2) [0, 1]
     = [23, 20]"
  by (simp add: helper_alf_enqueue_store_simple_def enqueue_store_simple_loop.simps
      helper_alf_enqueue_store_mask_def enqueue_store_mask_loop.simps
      helper_alf_dequeue_load_simple_def dequeue_load_simple_loop.simps
      helper_alf_dequeue_load_mask_def dequeue_load_mask_loop.simps alf_queue_of_def)

section \<open>Introspection\<close>

lemma uint_exp_u32: "k < 32 \<Longrightarrow> uint (2 ^ k :: u32) = 2 ^ k"
proof -
  assume k: "k < 32"
  have e: "(2 ^ k :: u32) = mask k + 1"
    by (simp add: mask_eq_exp_minus_1)
  have "uint (mask k + 1 :: u32) = uint (mask k :: u32) + uint (1 :: u32)"
    using exp_le_31_int [OF k]
    by (intro uint_add_lem [THEN iffD1]) (simp add: uint_mask_u32 [OF k])
  then show ?thesis unfolding e by (simp add: uint_mask_u32 [OF k])
qed

lemma le_mask_less_exp: "k < 32 \<Longrightarrow> (x::u32) \<le> mask k \<Longrightarrow> x < 2 ^ k"
  by (simp add: word_less_def uint_exp_u32 le_mask_iff)

lemma alf_queue_inv_facts:
  assumes "alf_queue_inv q"
  obtains k where "k < 32" "size_q q = 2 ^ k" "mask_q q = mask k"
    "head (producer q) \<le> mask k" "tail (producer q) \<le> mask k"
    "head (consumer q) \<le> mask k" "tail (consumer q) \<le> mask k"
proof -
  obtain k where k: "k < 32" "size_q q = 2 ^ k" "mask_q q = mask k"
    using assms by (rule alf_queue_inv_mask)
  moreover have "head (producer q) \<le> mask k" "tail (producer q) \<le> mask k"
    "head (consumer q) \<le> mask k" "tail (consumer q) \<le> mask k"
    using assms unfolding alf_queue_inv_def k(3) by blast+
  ultimately show ?thesis by (rule that)
qed

lemma alf_queue_count_uint:
  assumes "k < 32" "mask_q q = mask k"
  shows "alf_queue_count q = uint ((tail (producer q) - head (consumer q)) AND mask k)"
  unfolding alf_queue_count_def Let_def assms(2)
  by (rule sint_le_mask [OF assms(1) word_and_le1])

lemma alf_queue_avail_space_uint:
  assumes "k < 32" "mask_q q = mask k"
  shows "alf_queue_avail_space q = uint ((tail (consumer q) - head (producer q) - 1) AND mask k)"
  unfolding alf_queue_avail_space_def Let_def assms(2)
  by (rule sint_le_mask [OF assms(1) word_and_le1])


lemma is_power_of_two_4: "is_power_of_two 4"
  unfolding is_power_of_two_def by (rule bexI [of _ 2]) simp_all

lemma is_power_of_two_8: "is_power_of_two 8"
  unfolding is_power_of_two_def by (rule bexI [of _ 3]) simp_all


text \<open>
  C5. In every state reached from a fresh queue (all cursors zero) by any sequence of
  enqueue and dequeue calls, \<open>alf_queue_count\<close> plus \<open>alf_queue_avail_space\<close> is the
  capacity \<open>size - 1\<close>.
\<close>

theorem count_plus_avail_space_is_capacity:
  assumes "alf_reachable q"
  shows "alf_queue_count q + alf_queue_avail_space q = uint (size_q q) - 1"
proof -
  have inv: "alf_queue_inv q" and idle: "producer_idle q" "consumer_idle q"
    using alf_reachable_inv [OF assms] by simp_all
  obtain k where k: "k < 32" "size_q q = 2 ^ k" "mask_q q = mask k"
    using inv by (rule alf_queue_inv_mask)
  have "alf_queue_count q + alf_queue_avail_space q =
        uint ((tail (producer q) - head (consumer q)) AND mask k) +
        uint ((head (consumer q) - tail (producer q) - 1) AND mask k)"
    using idle
    by (simp add: alf_queue_count_uint [OF k(1,3)] alf_queue_avail_space_uint [OF k(1,3)]
        producer_idle_def consumer_idle_def)
  also have "\<dots> = 2 ^ k - 1" by (rule uint_count_plus_space [OF k(1)])
  finally show ?thesis by (simp add: k(2) uint_exp_u32 [OF k(1)])
qed

theorem count_plus_avail_space_witness:
  "alf_reachable
     ((helper_alf_enqueue_store_mask 0 0 (alf_queue_of 4 0 0 (\<lambda>_. 0 :: nat))
         ((\<lambda>_. 0)(0 := 10, 1 := 11)) 2)\<lparr>producer := \<lparr>head = 2, tail = 2\<rparr>\<rparr>) \<and>
   alf_queue_count
     ((helper_alf_enqueue_store_mask 0 0 (alf_queue_of 4 0 0 (\<lambda>_. 0 :: nat))
         ((\<lambda>_. 0)(0 := 10, 1 := 11)) 2)\<lparr>producer := \<lparr>head = 2, tail = 2\<rparr>\<rparr>) +
   alf_queue_avail_space
     ((helper_alf_enqueue_store_mask 0 0 (alf_queue_of 4 0 0 (\<lambda>_. 0 :: nat))
         ((\<lambda>_. 0)(0 := 10, 1 := 11)) 2)\<lparr>producer := \<lparr>head = 2, tail = 2\<rparr>\<rparr>) = 3"
proof -
  let ?q0 = "alf_queue_of 4 0 0 (\<lambda>_. 0 :: nat)"
  let ?p = "(\<lambda>_. 0 :: nat)(0 := 10, 1 := 11)"
  let ?q1 = "(helper_alf_enqueue_store_mask 0 0 ?q0 ?p 2)\<lparr>producer := \<lparr>head = 2, tail = 2\<rparr>\<rparr>"
  have r0: "alf_reachable ?q0"
    by (rule alf_reachable.initial) (simp add: alf_queue_initial_def is_power_of_two_4)
  have e: "alf_mp_enqueue ?q0 ?p 2 = Some (Inr 2, ?q1)"
    by (simp add: alf_mp_enqueue_ok)
  have r1: "alf_reachable ?q1"
    by (rule alf_reachable.enqueue [OF r0 e])
  show ?thesis
    using r1 count_plus_avail_space_is_capacity [OF r1] by simp
qed


section \<open>Calls of length zero\<close>

text \<open>
  C10. On a well-formed queue with no reservation waiting to be published, an enqueue
  of zero references returns 0 and a dequeue of zero references returns 0, and both
  leave the whole queue (the four cursors and every ring slot) and the caller's buffer
  as they were.
\<close>

theorem zero_length_calls_are_noops:
  assumes "alf_queue_inv q" "producer_idle q" "consumer_idle q"
  shows "alf_mp_enqueue q ptr 0 = Some (Inr 0, q) \<and> alf_mc_dequeue q ptr 0 = Some (0, q, ptr)"
proof -
  obtain k where k: "k < 32" "size_q q = 2 ^ k" "mask_q q = mask k"
    "head (producer q) \<le> mask k" "tail (producer q) \<le> mask k"
    "head (consumer q) \<le> mask k" "tail (consumer q) \<le> mask k"
    using assms(1) by (rule alf_queue_inv_facts)
  have p: "producer q = \<lparr>head = head (producer q), tail = head (producer q)\<rparr>"
    using assms(2) by (simp add: producer_idle_def)
  have c: "consumer q = \<lparr>head = head (consumer q), tail = head (consumer q)\<rparr>"
    using assms(3) by (simp add: consumer_idle_def)
  have s0: "helper_alf_enqueue_store_mask (head (producer q)) (tail (consumer q)) q ptr 0 = q"
    by (simp add: helper_alf_enqueue_store_mask_fold)
  have l0: "helper_alf_dequeue_load_mask (head (consumer q)) (tail (producer q)) q ptr 0 = ptr"
    by (simp add: helper_alf_dequeue_load_mask_fold)
  have "alf_mp_enqueue q ptr 0 =
        Some (Inr 0, q\<lparr>producer := \<lparr>head = head (producer q), tail = head (producer q)\<rparr>\<rparr>)"
    using assms(2)
    by (simp add: alf_mp_enqueue_ok producer_idle_def s0 k(3) le_mask_and [OF k(1,4)])
  then have enq: "alf_mp_enqueue q ptr 0 = Some (Inr 0, q)"
    using p by simp
  have deq: "alf_mc_dequeue q ptr 0 = Some (0, q, ptr)"
  proof (cases "(tail (producer q) - head (consumer q)) AND mask_q q = 0")
    case True
    then show ?thesis by (rule alf_mc_dequeue_empty)
  next
    case False
    have "alf_mc_dequeue q ptr 0 =
        Some (0, q\<lparr>consumer := \<lparr>head = head (consumer q), tail = head (consumer q)\<rparr>\<rparr>, ptr)"
      using assms(3) False
      by (simp add: alf_mc_dequeue_ok consumer_idle_def l0 k(3) le_mask_and [OF k(1,6)])
    then show ?thesis using c by simp
  qed
  show ?thesis using enq deq by simp
qed

theorem zero_length_calls_witness:
  "alf_queue_inv (alf_queue_of 4 3 1 (\<lambda>_. 0 :: nat)) \<and>
   producer_idle (alf_queue_of 4 3 1 (\<lambda>_. 0 :: nat)) \<and>
   consumer_idle (alf_queue_of 4 3 1 (\<lambda>_. 0 :: nat)) \<and>
   alf_mp_enqueue (alf_queue_of 4 3 1 (\<lambda>_. 0 :: nat)) (\<lambda>_. 5) 0
     = Some (Inr 0, alf_queue_of 4 3 1 (\<lambda>_. 0)) \<and>
   alf_mc_dequeue (alf_queue_of 4 3 1 (\<lambda>_. 0 :: nat)) (\<lambda>_. 5) 0
     = Some (0, alf_queue_of 4 3 1 (\<lambda>_. 0), \<lambda>_. 5)"
proof -
  have i: "alf_queue_inv (alf_queue_of 4 3 1 (\<lambda>_. 0 :: nat))"
    by (simp add: alf_queue_inv_def is_power_of_two_4)
  have p: "producer_idle (alf_queue_of 4 3 1 (\<lambda>_. 0 :: nat))"
    by (simp add: producer_idle_def)
  have c: "consumer_idle (alf_queue_of 4 3 1 (\<lambda>_. 0 :: nat))"
    by (simp add: consumer_idle_def)
  show ?thesis
    using i p c zero_length_calls_are_noops [OF i p c, of "\<lambda>_. 5"] by simp
qed

section \<open>Cursors are ring indices\<close>

text \<open>
  C9. Every cursor update stores a value already reduced by the mask: an enqueue that
  succeeds leaves \<open>(head + n) & mask\<close> in \<open>producer.head\<close> and \<open>producer.tail\<close>, a dequeue
  leaves \<open>(head + elems) & mask\<close> in \<open>consumer.head\<close> and \<open>consumer.tail\<close>, and in every
  state reached from a fresh queue all four cursors are below \<open>size\<close>: the counters wrap
  at \<open>size\<close>, not at \<open>2^32\<close>.
\<close>

theorem cursors_stay_below_size:
  assumes "alf_reachable q"
  shows "head (producer q) < size_q q \<and> tail (producer q) < size_q q \<and>
         head (consumer q) < size_q q \<and> tail (consumer q) < size_q q \<and>
         (\<forall>ptr n r q'. alf_mp_enqueue q ptr n = Some (Inr r, q') \<longrightarrow>
            producer q' = \<lparr>head = (head (producer q) + n) AND mask_q q,
                            tail = (head (producer q) + n) AND mask_q q\<rparr> \<and>
            consumer q' = consumer q) \<and>
         (\<forall>ptr n r q' ptr'. alf_mc_dequeue q ptr n = Some (r, q', ptr') \<longrightarrow>
            (let elems = min ((tail (producer q) - head (consumer q)) AND mask_q q) n in
             consumer q' = \<lparr>head = (head (consumer q) + elems) AND mask_q q,
                             tail = (head (consumer q) + elems) AND mask_q q\<rparr> \<and>
             producer q' = producer q))"
proof -
  have inv: "alf_queue_inv q" and idle: "producer_idle q" "consumer_idle q"
    using alf_reachable_inv [OF assms] by simp_all
  obtain k where k: "k < 32" "size_q q = 2 ^ k" "mask_q q = mask k"
    "head (producer q) \<le> mask k" "tail (producer q) \<le> mask k"
    "head (consumer q) \<le> mask k" "tail (consumer q) \<le> mask k"
    using inv by (rule alf_queue_inv_facts)
  have cur: "head (producer q) < size_q q \<and> tail (producer q) < size_q q \<and>
         head (consumer q) < size_q q \<and> tail (consumer q) < size_q q"
    unfolding k(2) using k(4-7) by (simp add: le_mask_less_exp [OF k(1)])
  have enq: "producer q' = \<lparr>head = (head (producer q) + n) AND mask_q q,
                            tail = (head (producer q) + n) AND mask_q q\<rparr> \<and>
             consumer q' = consumer q"
    if "alf_mp_enqueue q ptr n = Some (Inr r, q')" for ptr n r q'
    using alf_mp_enqueue_cases [OF that] by auto
  have deq: "consumer q' =
        \<lparr>head = (head (consumer q) + min ((tail (producer q) - head (consumer q)) AND mask_q q) n) AND mask_q q,
         tail = (head (consumer q) + min ((tail (producer q) - head (consumer q)) AND mask_q q) n) AND mask_q q\<rparr> \<and>
        producer q' = producer q"
    if d: "alf_mc_dequeue q ptr n = Some (r, q', ptr')" for ptr n r q' ptr'
  proof (cases "(tail (producer q) - head (consumer q)) AND mask_q q = 0")
    case True
    then have "q' = q" using alf_mc_dequeue_cases [OF d] by simp
    moreover have "consumer q = \<lparr>head = head (consumer q), tail = head (consumer q)\<rparr>"
      using idle(2) by (simp add: consumer_idle_def)
    ultimately show ?thesis
      using True by (simp add: k(3) le_mask_and [OF k(1,6)])
  next
    case False
    then show ?thesis using alf_mc_dequeue_cases [OF d] by simp
  qed
  show ?thesis
    using cur enq deq unfolding Let_def by blast
qed

theorem cursors_stay_below_size_witness:
  "alf_reachable (alf_queue_of 4 0 0 (\<lambda>_. 0 :: nat)) \<and>
   (\<exists>q'. alf_mp_enqueue (alf_queue_of 4 0 0 (\<lambda>_. 0 :: nat)) (\<lambda>_. 7) 3 = Some (Inr 3, q') \<and>
         producer q' = \<lparr>head = 3, tail = 3\<rparr> \<and> head (producer q') < size_q q' \<and>
         (\<exists>q'' ptr'. alf_mc_dequeue q' (\<lambda>_. 0) 3 = Some (3, q'', ptr') \<and>
            (\<exists>q'''. alf_mp_enqueue q'' (\<lambda>_. 8) 2 = Some (Inr 2, q''') \<and>
               producer q''' = \<lparr>head = 1, tail = 1\<rparr> \<and> consumer q''' = \<lparr>head = 3, tail = 3\<rparr>)))"
proof -
  let ?q0 = "alf_queue_of 4 0 0 (\<lambda>_. 0 :: nat)"
  let ?q1 = "(helper_alf_enqueue_store_mask 0 0 ?q0 (\<lambda>_. 7) 3)\<lparr>producer := \<lparr>head = 3, tail = 3\<rparr>\<rparr>"
  let ?q2 = "?q1\<lparr>consumer := \<lparr>head = 3, tail = 3\<rparr>\<rparr>"
  let ?q3 = "(helper_alf_enqueue_store_mask 3 3 ?q2 (\<lambda>_. 8) 2)\<lparr>producer := \<lparr>head = 1, tail = 1\<rparr>\<rparr>"
  have r0: "alf_reachable ?q0"
    by (rule alf_reachable.initial) (simp add: alf_queue_initial_def is_power_of_two_4)
  have e1: "alf_mp_enqueue ?q0 (\<lambda>_. 7) 3 = Some (Inr 3, ?q1)"
    by (simp add: alf_mp_enqueue_ok)
  have r1: "alf_reachable ?q1" by (rule alf_reachable.enqueue [OF r0 e1])
  have d1: "alf_mc_dequeue ?q1 (\<lambda>_. 0) 3 =
      Some (3, ?q2, helper_alf_dequeue_load_mask 0 3 ?q1 (\<lambda>_. 0) 3)"
    by (simp add: alf_mc_dequeue_ok)
  have r2: "alf_reachable ?q2" by (rule alf_reachable.dequeue [OF r1 d1])
  have e2: "alf_mp_enqueue ?q2 (\<lambda>_. 8) 2 = Some (Inr 2, ?q3)"
    by (simp add: alf_mp_enqueue_ok)
  have "producer ?q3 = \<lparr>head = 1, tail = 1\<rparr> \<and> consumer ?q3 = \<lparr>head = 3, tail = 3\<rparr>"
    using cursors_stay_below_size [OF r2] e2 by simp
  then show ?thesis
    using r0 e1 d1 e2 by simp
qed

section \<open>The capacity boundary\<close>

text \<open>
  C6. A fresh queue of size 4 (mask 3) takes three single-reference enqueues, each
  returning 1, and refuses the fourth with \<open>-ENOBUFS\<close>: it holds at most
  \<open>size - 1 = 3\<close> references.
\<close>

theorem capacity_boundary_size_4:
  assumes "alf_queue_initial q" "size_q q = 4"
  shows "\<exists>q1 q2 q3.
           alf_mp_enqueue q p1 1 = Some (Inr 1, q1) \<and>
           alf_mp_enqueue q1 p2 1 = Some (Inr 1, q2) \<and>
           alf_mp_enqueue q2 p3 1 = Some (Inr 1, q3) \<and>
           alf_mp_enqueue q3 p4 1 = Some (Inl ENOBUFS, q3) \<and>
           alf_queue_count q3 = 3 \<and> alf_queue_avail_space q3 = 0"
proof -
  have m: "mask_q q = 3" and c: "head (producer q) = 0" "tail (producer q) = 0"
    "head (consumer q) = 0" "tail (consumer q) = 0"
    using assms by (simp_all add: alf_queue_initial_def)
  define q1 where "q1 = (helper_alf_enqueue_store_mask 0 0 q p1 1)\<lparr>producer := \<lparr>head = 1, tail = 1\<rparr>\<rparr>"
  define q2 where "q2 = (helper_alf_enqueue_store_mask 1 0 q1 p2 1)\<lparr>producer := \<lparr>head = 2, tail = 2\<rparr>\<rparr>"
  define q3 where "q3 = (helper_alf_enqueue_store_mask 2 0 q2 p3 1)\<lparr>producer := \<lparr>head = 3, tail = 3\<rparr>\<rparr>"
  have e1: "alf_mp_enqueue q p1 1 = Some (Inr 1, q1)"
    by (simp add: alf_mp_enqueue_ok m c q1_def)
  have e2: "alf_mp_enqueue q1 p2 1 = Some (Inr 1, q2)"
    by (simp add: alf_mp_enqueue_ok m c q1_def q2_def)
  have e3: "alf_mp_enqueue q2 p3 1 = Some (Inr 1, q3)"
    by (simp add: alf_mp_enqueue_ok m c q1_def q2_def q3_def)
  have e4: "alf_mp_enqueue q3 p4 1 = Some (Inl ENOBUFS, q3)"
    by (rule alf_mp_enqueue_fail) (simp add: m c q1_def q2_def q3_def)
  have n: "alf_queue_count q3 = 3 \<and> alf_queue_avail_space q3 = 0"
    by (simp add: alf_queue_count_def alf_queue_avail_space_def m c q1_def q2_def q3_def)
  show ?thesis using e1 e2 e3 e4 n by blast
qed

theorem capacity_boundary_witness:
  "alf_queue_initial (alf_queue_of 4 0 0 (\<lambda>_. 0 :: nat)) \<and>
   size_q (alf_queue_of 4 0 0 (\<lambda>_. 0 :: nat)) = 4 \<and>
   (\<exists>q1 q2 q3.
      alf_mp_enqueue (alf_queue_of 4 0 0 (\<lambda>_. 0 :: nat)) (\<lambda>_. 10) 1 = Some (Inr 1, q1) \<and>
      alf_mp_enqueue q1 (\<lambda>_. 11) 1 = Some (Inr 1, q2) \<and>
      alf_mp_enqueue q2 (\<lambda>_. 12) 1 = Some (Inr 1, q3) \<and>
      alf_mp_enqueue q3 (\<lambda>_. 13) 1 = Some (Inl ENOBUFS, q3) \<and>
      alf_queue_count q3 = 3 \<and> alf_queue_avail_space q3 = 0)"
proof -
  have i: "alf_queue_initial (alf_queue_of 4 0 0 (\<lambda>_. 0 :: nat))"
    by (simp add: alf_queue_initial_def is_power_of_two_4)
  have s: "size_q (alf_queue_of 4 0 0 (\<lambda>_. 0 :: nat)) = 4"
    by simp
  show ?thesis
    using i s capacity_boundary_size_4 [OF i s, of "\<lambda>_. 10" "\<lambda>_. 11" "\<lambda>_. 12" "\<lambda>_. 13"]
    by (intro conjI)
qed


section \<open>The block-copy helpers\<close>

text \<open>
  C7. The \<open>memcpy\<close> helpers do not do what the masked helpers do. Store: a ring of
  size 8 with \<open>producer.head = 1\<close> and \<open>consumer.tail = 5\<close> has room for three
  references; storing the batch 10, 11, 12 the masked helper writes slots 1, 2, 3,
  while the \<open>memcpy\<close> helper splits at \<open>size - c_tail\<close>, a distance taken from the
  consumer cursor, and then copies \<open>c_tail - dif = 2\<close> more cells from beyond the
  batch over slots 0 and 1. Load: with \<open>consumer.head = 6\<close>, \<open>producer.tail = 2\<close> and
  four references to load, the masked helper returns slots 6, 7, 0, 1, while the
  \<open>memcpy\<close> helper copies slots 6 and 7 and then \<open>p_tail - dif = 0\<close> further cells.
  The lists show ring slots 0 to 7 after the store, and cells 0 to 3 of the caller's
  buffer after the load.
\<close>

theorem memcpy_helpers_differ_from_mask:
  "alf_queue_inv (alf_queue_of 8 1 5 ((\<lambda>_. 0 :: nat)(5 := 25, 6 := 26, 7 := 27, 0 := 20))) \<and>
   alf_queue_avail_space
     (alf_queue_of 8 1 5 ((\<lambda>_. 0 :: nat)(5 := 25, 6 := 26, 7 := 27, 0 := 20))) = 3 \<and>
   alf_queue_inv (alf_queue_of 8 2 6 ((\<lambda>_. 0 :: nat)(6 := 16, 7 := 17, 0 := 10, 1 := 11))) \<and>
   alf_queue_count
     (alf_queue_of 8 2 6 ((\<lambda>_. 0 :: nat)(6 := 16, 7 := 17, 0 := 10, 1 := 11))) = 4 \<and>
   map (ring (helper_alf_enqueue_store_memcpy 1 5
          (alf_queue_of 8 1 5 ((\<lambda>_. 0 :: nat)(5 := 25, 6 := 26, 7 := 27, 0 := 20)))
          ((\<lambda>_. 0)(0 := 10, 1 := 11, 2 := 12)) 3)) [0, 1, 2, 3, 4, 5, 6, 7]
     = [0, 0, 11, 12, 0, 25, 26, 27] \<and>
   map (ring (helper_alf_enqueue_store_mask 1 5
          (alf_queue_of 8 1 5 ((\<lambda>_. 0 :: nat)(5 := 25, 6 := 26, 7 := 27, 0 := 20)))
          ((\<lambda>_. 0)(0 := 10, 1 := 11, 2 := 12)) 3)) [0, 1, 2, 3, 4, 5, 6, 7]
     = [20, 10, 11, 12, 0, 25, 26, 27] \<and>
   map (helper_alf_dequeue_load_memcpy 6 2
          (alf_queue_of 8 2 6 ((\<lambda>_. 0 :: nat)(6 := 16, 7 := 17, 0 := 10, 1 := 11)))
          (\<lambda>_. 0) 4) [0, 1, 2, 3]
     = [16, 17, 0, 0] \<and>
   map (helper_alf_dequeue_load_mask 6 2
          (alf_queue_of 8 2 6 ((\<lambda>_. 0 :: nat)(6 := 16, 7 := 17, 0 := 10, 1 := 11)))
          (\<lambda>_. 0) 4) [0, 1, 2, 3]
     = [16, 17, 10, 11]"
  by (simp add: helper_alf_enqueue_store_memcpy_def helper_alf_dequeue_load_memcpy_def
      memcpy_def Let_def word_le_nat_alt word_less_nat_alt
      alf_queue_inv_def is_power_of_two_8 alf_queue_avail_space_def alf_queue_count_def
      helper_alf_enqueue_store_mask_def enqueue_store_mask_loop.simps
      helper_alf_dequeue_load_mask_def dequeue_load_mask_loop.simps alf_queue_of_def)

section \<open>The queue as a list\<close>

text \<open>A store of \<open>n \<le> space\<close> references appends them to the content of the queue, and
  a load of \<open>e \<le> count\<close> references returns the first \<open>e\<close> of them and drops them.\<close>

lemma unat_of_uint_sum:
  "uint (x::u32) = uint (a::u32) + uint (b::u32) \<Longrightarrow> unat x = unat a + unat b"
proof -
  assume "uint x = uint a + uint b"
  then have "int (unat x) = int (unat a + unat b)"
    by (simp only: uint_nat of_nat_add)
  then show ?thesis by (simp only: of_nat_eq_iff)
qed

lemma unat_of_uint_diff:
  "uint (x::u32) = uint (a::u32) - uint (b::u32) \<Longrightarrow> unat x = unat a - unat b"
proof -
  assume "uint x = uint a - uint b"
  then have "int (unat x) = int (unat a) - int (unat b)"
    by (simp only: uint_nat)
  then show ?thesis by linarith
qed

lemma ring_index_shift:
  "((c::u32) + ((p - c) AND mask k) + i) AND mask k = (p + i) AND mask k"
proof -
  have "(c + ((p - c) AND mask k) + i) AND mask k = (((p - c) AND mask k) + (c + i)) AND mask k"
    by (simp add: add_ac)
  also have "\<dots> = ((p - c) + (c + i)) AND mask k"
    by (rule mask_eqs(1))
  finally show ?thesis by simp
qed

lemma ring_index_advance:
  "((((c::u32) + e) AND mask k) + j) AND mask k = (c + (e + j)) AND mask k"
  by (simp add: mask_eqs(1) add.assoc)

lemma alf_contents_enqueue:
  assumes inv: "alf_queue_inv q" and idle: "producer_idle q" "consumer_idle q"
    and le: "n \<le> (tail (consumer q) - head (producer q) - 1) AND mask_q q"
  shows "alf_contents
           ((helper_alf_enqueue_store_mask (head (producer q)) (tail (consumer q)) q ptr n)
              \<lparr>producer := \<lparr>head = (head (producer q) + n) AND mask_q q,
                            tail = (head (producer q) + n) AND mask_q q\<rparr>\<rparr>)
         = alf_contents q @ map (\<lambda>j. ptr (int j)) [0..<unat n]"
proof -
  obtain k where k: "k < 32" "size_q q = 2 ^ k" "mask_q q = mask k"
    using inv by (rule alf_queue_inv_mask)
  define p where "p = head (producer q)"
  define c where "c = head (consumer q)"
  define C where "C = (p - c) AND mask k"
  define st where "st = helper_alf_enqueue_store_mask p c q ptr n"
  have pt: "tail (producer q) = p" and ct: "tail (consumer q) = c"
    using idle by (simp_all add: producer_idle_def consumer_idle_def p_def c_def)
  have le': "n \<le> (c - p - 1) AND mask k"
    using le by (simp add: k(3) ct p_def)
  have nm: "n \<le> mask k"
    using le' word_and_le1 [of "c - p - 1" "mask k"] by (rule order_trans)
  have cnt: "unat ((((p + n) AND mask k) - c) AND mask k) = unat C + unat n"
    unfolding C_def by (rule unat_of_uint_sum) (rule uint_count_after_enqueue [OF k(1) le'])
  have "unat ((((p + n) AND mask k) - c) AND mask k) < 2 ^ k"
    by (rule unat_le_mask [OF k(1) word_and_le1])
  then have bound: "unat C + unat n < 2 ^ k" by (simp only: cnt)
  have addr: "(c + of_nat (unat C + i)) AND mask k = (p + of_nat i) AND mask k" for i
    using ring_index_shift [of c p k "of_nat i"] by (simp add: C_def add.assoc)
  have old: "ring st (uint ((c + of_nat j) AND mask k)) = ring q (uint ((c + of_nat j) AND mask k))"
    if j: "j < unat C" for j
    unfolding st_def
  proof (rule helper_store_ring_other, intro allI impI)
    fix i assume i: "i < unat n"
    show "uint ((c + of_nat j) AND mask k) \<noteq> uint ((p + of_nat i) AND mask_q q)"
    proof
      assume "uint ((c + of_nat j) AND mask k) = uint ((p + of_nat i) AND mask_q q)"
      then have "uint ((c + of_nat j) AND mask k) = uint ((c + of_nat (unat C + i)) AND mask k)"
        by (simp only: addr k(3))
      then have "j = unat C + i"
        using j i bound by (intro ring_index_inj [OF k(1)]) simp_all
      then show False using j by simp
    qed
  qed
  have new: "ring st (uint ((c + of_nat (unat C + i)) AND mask k)) = ptr (int i)"
    if i: "i < unat n" for i
    unfolding st_def addr by (rule helper_store_ring_at [OF k(1) k(3) nm i])
  have "alf_contents (st\<lparr>producer := \<lparr>head = (p + n) AND mask k, tail = (p + n) AND mask k\<rparr>\<rparr>)
        = map (\<lambda>j. ring st (uint ((c + of_nat j) AND mask k))) [0..<unat C + unat n]"
    by (simp add: alf_contents_def st_def k(3) c_def [symmetric] cnt)
  also have "\<dots> = map (\<lambda>j. ring st (uint ((c + of_nat j) AND mask k))) [0..<unat C] @
                   map (\<lambda>j. ring st (uint ((c + of_nat j) AND mask k))) [unat C..<unat C + unat n]"
    by (simp only: upt_add_eq_append [OF le0] map_append)
  also have "map (\<lambda>j. ring st (uint ((c + of_nat j) AND mask k))) [0..<unat C]
           = map (\<lambda>j. ring q (uint ((c + of_nat j) AND mask k))) [0..<unat C]"
    by (rule map_cong) (simp_all add: old)
  also have "[unat C..<unat C + unat n] = map (\<lambda>i. unat C + i) [0..<unat n]"
    using map_add_upt [of "unat C" "unat n"] by (simp add: add.commute)
  also have "map (\<lambda>j. ring st (uint ((c + of_nat j) AND mask k))) (map (\<lambda>i. unat C + i) [0..<unat n])
           = map (\<lambda>i. ptr (int i)) [0..<unat n]"
    unfolding map_map comp_def by (rule map_cong) (simp_all only: new set_upt atLeastLessThan_iff)
  finally have "alf_contents (st\<lparr>producer := \<lparr>head = (p + n) AND mask k, tail = (p + n) AND mask k\<rparr>\<rparr>)
        = map (\<lambda>j. ring q (uint ((c + of_nat j) AND mask k))) [0..<unat C] @
          map (\<lambda>i. ptr (int i)) [0..<unat n]" .
  moreover have "alf_contents q = map (\<lambda>j. ring q (uint ((c + of_nat j) AND mask k))) [0..<unat C]"
    by (simp add: alf_contents_def k(3) c_def C_def pt)
  ultimately show ?thesis
    by (simp add: st_def p_def ct c_def k(3))
qed

lemma alf_contents_dequeue:
  assumes inv: "alf_queue_inv q"
    and e: "e \<le> (tail (producer q) - head (consumer q)) AND mask_q q"
  shows "map (helper_alf_dequeue_load_mask (head (consumer q)) (tail (producer q)) q ptr e)
           (map int [0..<unat e]) = take (unat e) (alf_contents q)"
    and "alf_contents
           (q\<lparr>consumer := \<lparr>head = (head (consumer q) + e) AND mask_q q,
                           tail = (head (consumer q) + e) AND mask_q q\<rparr>\<rparr>)
         = drop (unat e) (alf_contents q)"
proof -
  obtain k where k: "k < 32" "size_q q = 2 ^ k" "mask_q q = mask k"
    using inv by (rule alf_queue_inv_mask)
  define p where "p = tail (producer q)"
  define c where "c = head (consumer q)"
  define C where "C = (p - c) AND mask k"
  define f where "f = (\<lambda>j. ring q (uint ((c + of_nat j) AND mask k)))"
  have e': "e \<le> (p - c) AND mask k"
    using e by (simp add: k(3) p_def c_def)
  have em: "e \<le> mask k"
    using e' word_and_le1 [of "p - c" "mask k"] by (rule order_trans)
  have eC: "unat e \<le> unat C"
    using e' by (simp add: C_def word_le_nat_alt)
  have con: "alf_contents q = map f [0..<unat C]"
    by (simp add: alf_contents_def k(3) c_def C_def p_def f_def)
  have "map (helper_alf_dequeue_load_mask c p q ptr e) (map int [0..<unat e])
        = map f [0..<unat e]"
    unfolding map_map comp_def f_def
    by (rule map_cong) (simp_all add: helper_load_at [OF k(1) em] k(3))
  also have "\<dots> = take (unat e) (map f [0..<unat C])"
    using eC by (simp add: take_map)
  finally show "map (helper_alf_dequeue_load_mask (head (consumer q)) (tail (producer q)) q ptr e)
           (map int [0..<unat e]) = take (unat e) (alf_contents q)"
    by (simp only: con p_def c_def)
  have cnt: "unat ((p - ((c + e) AND mask k)) AND mask k) = unat C - unat e"
    unfolding C_def by (rule unat_of_uint_diff) (rule uint_count_after_dequeue [OF k(1) e'])
  have addr: "(((c + e) AND mask k) + of_nat j) AND mask k = (c + of_nat (unat e + j)) AND mask k" for j
    by (simp add: ring_index_advance)
  have "alf_contents (q\<lparr>consumer := \<lparr>head = (c + e) AND mask k, tail = (c + e) AND mask k\<rparr>\<rparr>)
        = map (\<lambda>j. f (unat e + j)) [0..<unat C - unat e]"
    by (simp add: alf_contents_def k(3) p_def [symmetric] cnt addr f_def)
  also have "\<dots> = map f (map (\<lambda>j. unat e + j) [0..<unat C - unat e])"
    by (simp add: comp_def)
  also have "map (\<lambda>j. unat e + j) [0..<unat C - unat e] = [unat e..<unat C]"
    using map_add_upt [of "unat e" "unat C - unat e"] eC by (simp add: add.commute)
  also have "map f [unat e..<unat C] = drop (unat e) (map f [0..<unat C])"
    by (simp add: drop_map)
  finally show "alf_contents
           (q\<lparr>consumer := \<lparr>head = (head (consumer q) + e) AND mask_q q,
                           tail = (head (consumer q) + e) AND mask_q q\<rparr>\<rparr>)
         = drop (unat e) (alf_contents q)"
    by (simp only: con c_def k(3))
qed

section \<open>Enqueue\<close>

lemma alf_mp_enqueue_idle:
  fixes q :: "'a alf_queue" and ptr :: "'a mem" and n :: u32
  assumes inv: "alf_queue_inv q" and idle: "producer_idle q"
    and le: "n \<le> (tail (consumer q) - head (producer q) - 1) AND mask_q q"
  defines "q' \<equiv> (helper_alf_enqueue_store_mask (head (producer q)) (tail (consumer q)) q ptr n)
              \<lparr>producer := \<lparr>head = (head (producer q) + n) AND mask_q q,
                            tail = (head (producer q) + n) AND mask_q q\<rparr>\<rparr>"
  shows "alf_mp_enqueue q ptr n = Some (Inr (uint n), q')"
    and "alf_queue_avail_space q' = alf_queue_avail_space q - uint n"
    and "consumer_idle q \<Longrightarrow> alf_queue_count q' = alf_queue_count q + uint n"
    and "consumer_idle q \<Longrightarrow> alf_contents q' = alf_contents q @ map (\<lambda>j. ptr (int j)) [0..<unat n]"
    and "\<forall>j < unat n. ring q' (uint ((head (producer q) + of_nat j) AND mask_q q)) = ptr (int j)"
    and "\<forall>a. (\<forall>j < unat n. a \<noteq> uint ((head (producer q) + of_nat j) AND mask_q q))
           \<longrightarrow> ring q' a = ring q a"
proof -
  obtain k where k: "k < 32" "size_q q = 2 ^ k" "mask_q q = mask k"
    using inv by (rule alf_queue_inv_mask)
  have pt: "tail (producer q) = head (producer q)"
    using idle by (simp add: producer_idle_def)
  have le': "n \<le> (tail (consumer q) - head (producer q) - 1) AND mask k"
    using le by (simp only: k(3))
  have nm: "n \<le> mask k"
    using le' word_and_le1 by (rule order_trans)
  have sn: "sint n = uint n"
    by (rule sint_le_mask [OF k(1) nm])
  have k': "mask_q q' = mask k"
    by (simp add: q'_def k(3))
  show "alf_mp_enqueue q ptr n = Some (Inr (uint n), q')"
    using alf_mp_enqueue_ok [OF le pt, where ptr = ptr] by (simp only: sn q'_def)
  show "alf_queue_avail_space q' = alf_queue_avail_space q - uint n"
    unfolding alf_queue_avail_space_uint [OF k(1) k'] alf_queue_avail_space_uint [OF k(1,3)]
    using uint_space_after_enqueue [OF k(1) le'] by (simp add: q'_def k(3))
  show "alf_queue_count q' = alf_queue_count q + uint n" if "consumer_idle q"
  proof -
    have ct: "tail (consumer q) = head (consumer q)"
      using that by (simp add: consumer_idle_def)
    show ?thesis
      unfolding alf_queue_count_uint [OF k(1) k'] alf_queue_count_uint [OF k(1,3)]
      using uint_count_after_enqueue [OF k(1) le' [unfolded ct]] by (simp add: q'_def k(3) pt)
  qed
  show "alf_contents q' = alf_contents q @ map (\<lambda>j. ptr (int j)) [0..<unat n]" if "consumer_idle q"
    unfolding q'_def by (rule alf_contents_enqueue [OF inv idle that le])
  show "\<forall>j < unat n. ring q' (uint ((head (producer q) + of_nat j) AND mask_q q)) = ptr (int j)"
    using helper_store_ring_at [OF k(1) k(3) nm] by (simp add: q'_def k(3))
  show "\<forall>a. (\<forall>j < unat n. a \<noteq> uint ((head (producer q) + of_nat j) AND mask_q q))
           \<longrightarrow> ring q' a = ring q a"
    by (simp add: q'_def helper_store_ring_other)
qed


text \<open>
  C2. All-or-nothing enqueue. The space is \<open>(consumer.tail - producer.head - 1) mod size\<close>.
  If \<open>n\<close> exceeds it, \<open>alf_mp_enqueue\<close> returns \<open>-ENOBUFS\<close> and the queue is unchanged,
  whatever the state. Otherwise, when no earlier reservation is waiting to be published
  (\<open>producer.tail = producer.head\<close>, as in every state sequential calls reach), it returns
  \<open>n\<close>, both producer cursors stand at \<open>(head + n) & mask\<close>, the \<open>n\<close> references are in the
  slots from the old head on, every other cell is as before, the space has shrunk by
  \<open>n\<close>, and the content of the queue is the old content followed by the batch.
\<close>

theorem alf_mp_enqueue_all_or_nothing:
  assumes "alf_queue_inv q"
  shows "let h = head (producer q); space = (tail (consumer q) - h - 1) AND mask_q q in
     uint space = (uint (tail (consumer q)) - uint h - 1) mod uint (size_q q) \<and>
     alf_queue_avail_space q = uint space \<and>
     (space < n \<longrightarrow> alf_mp_enqueue q ptr n = Some (Inl ENOBUFS, q)) \<and>
     (n \<le> space \<and> producer_idle q \<longrightarrow>
        (\<exists>q'. alf_mp_enqueue q ptr n = Some (Inr (uint n), q') \<and>
              producer q' = \<lparr>head = (h + n) AND mask_q q, tail = (h + n) AND mask_q q\<rparr> \<and>
              consumer q' = consumer q \<and> size_q q' = size_q q \<and> mask_q q' = mask_q q \<and>
              flags q' = flags q \<and>
              (\<forall>j < unat n. ring q' (uint ((h + of_nat j) AND mask_q q)) = ptr (int j)) \<and>
              (\<forall>a. (\<forall>j < unat n. a \<noteq> uint ((h + of_nat j) AND mask_q q)) \<longrightarrow> ring q' a = ring q a) \<and>
              alf_queue_avail_space q' = alf_queue_avail_space q - uint n \<and>
              (consumer_idle q \<longrightarrow>
                 alf_queue_count q' = alf_queue_count q + uint n \<and>
                 alf_contents q' = alf_contents q @ map (\<lambda>j. ptr (int j)) [0..<unat n])))"
proof -
  obtain k where k: "k < 32" "size_q q = 2 ^ k" "mask_q q = mask k"
    using assms by (rule alf_queue_inv_mask)
  define h where "h = head (producer q)"
  define space where "space = (tail (consumer q) - h - 1) AND mask_q q"
  have a: "uint space = (uint (tail (consumer q)) - uint h - 1) mod uint (size_q q)"
    by (simp add: space_def k(2,3) uint_sub1_and_mask [OF k(1)] uint_exp_u32 [OF k(1)])
  have b: "alf_queue_avail_space q = uint space"
    by (simp add: space_def h_def alf_queue_avail_space_uint [OF k(1,3)] k(3))
  have c: "alf_mp_enqueue q ptr n = Some (Inl ENOBUFS, q)" if "space < n"
    using that by (intro alf_mp_enqueue_fail) (simp add: space_def h_def)
  have d: "\<exists>q'. alf_mp_enqueue q ptr n = Some (Inr (uint n), q') \<and>
              producer q' = \<lparr>head = (h + n) AND mask_q q, tail = (h + n) AND mask_q q\<rparr> \<and>
              consumer q' = consumer q \<and> size_q q' = size_q q \<and> mask_q q' = mask_q q \<and>
              flags q' = flags q \<and>
              (\<forall>j < unat n. ring q' (uint ((h + of_nat j) AND mask_q q)) = ptr (int j)) \<and>
              (\<forall>a. (\<forall>j < unat n. a \<noteq> uint ((h + of_nat j) AND mask_q q)) \<longrightarrow> ring q' a = ring q a) \<and>
              alf_queue_avail_space q' = alf_queue_avail_space q - uint n \<and>
              (consumer_idle q \<longrightarrow>
                 alf_queue_count q' = alf_queue_count q + uint n \<and>
                 alf_contents q' = alf_contents q @ map (\<lambda>j. ptr (int j)) [0..<unat n])"
    if "n \<le> space" "producer_idle q"
  proof -
    have le: "n \<le> (tail (consumer q) - head (producer q) - 1) AND mask_q q"
      using that(1) by (simp add: space_def h_def)
    note s = alf_mp_enqueue_idle [OF assms that(2) le, where ptr = ptr]
    show ?thesis
      apply (rule exI [of _ "(helper_alf_enqueue_store_mask (head (producer q)) (tail (consumer q)) q ptr n)
              \<lparr>producer := \<lparr>head = (head (producer q) + n) AND mask_q q,
                            tail = (head (producer q) + n) AND mask_q q\<rparr>\<rparr>"])
      apply (intro conjI impI)
                 apply (rule s(1))
                apply (simp add: h_def)
               apply simp
              apply simp
             apply simp
            apply simp
           apply (unfold h_def, rule s(5))
          apply (rule s(6))
         apply (rule s(2))
        apply (erule s(3))
       apply (erule s(4))
      done
  qed
  show ?thesis
    unfolding Let_def h_def [symmetric] space_def [symmetric]
    using a b c d by blast
qed

theorem alf_mp_enqueue_all_or_nothing_witness:
  "alf_queue_inv (alf_queue_of 4 3 2 ((\<lambda>_. 0 :: nat)(2 := 22))) \<and>
   producer_idle (alf_queue_of 4 3 2 ((\<lambda>_. 0 :: nat)(2 := 22))) \<and>
   alf_queue_avail_space (alf_queue_of 4 3 2 ((\<lambda>_. 0 :: nat)(2 := 22))) = 2 \<and>
   alf_mp_enqueue (alf_queue_of 4 3 2 ((\<lambda>_. 0 :: nat)(2 := 22))) ((\<lambda>_. 0)(0 := 10, 1 := 11, 2 := 12)) 3
     = Some (Inl ENOBUFS, alf_queue_of 4 3 2 ((\<lambda>_. 0)(2 := 22))) \<and>
   (\<exists>q'. alf_mp_enqueue (alf_queue_of 4 3 2 ((\<lambda>_. 0 :: nat)(2 := 22))) ((\<lambda>_. 0)(0 := 10, 1 := 11)) 2
           = Some (Inr 2, q') \<and>
         producer q' = \<lparr>head = 1, tail = 1\<rparr> \<and> ring q' 3 = 10 \<and> ring q' 0 = 11 \<and>
         ring q' 2 = 22 \<and> alf_queue_avail_space q' = 0 \<and> alf_contents q' = [22, 10, 11])"
proof -
  let ?Q = "alf_queue_of 4 3 2 ((\<lambda>_. 0 :: nat)(2 := 22))"
  let ?P = "(\<lambda>_. 0 :: nat)(0 := 10, 1 := 11)"
  have i: "alf_queue_inv ?Q"
    by (simp add: alf_queue_inv_def is_power_of_two_4)
  have p: "producer_idle ?Q" and c: "consumer_idle ?Q"
    by (simp_all add: producer_idle_def consumer_idle_def)
  have s: "alf_queue_avail_space ?Q = 2"
    by (simp add: alf_queue_avail_space_def)
  have con: "alf_contents ?Q = [22]"
    by (simp add: alf_contents_def)
  have f: "alf_mp_enqueue ?Q ((\<lambda>_. 0)(0 := 10, 1 := 11, 2 := 12)) 3 = Some (Inl ENOBUFS, ?Q)"
    using alf_mp_enqueue_all_or_nothing [OF i, of 3 "(\<lambda>_. 0)(0 := 10, 1 := 11, 2 := 12)"]
    by (simp add: Let_def)
  obtain q' where q': "alf_mp_enqueue ?Q ?P 2 = Some (Inr 2, q')"
    "producer q' = \<lparr>head = 1, tail = 1\<rparr>"
    "\<forall>j < 2. ring q' (uint ((3 + of_nat j :: u32) AND 3)) = ?P (int j)"
    "\<forall>a. (\<forall>j < 2. a \<noteq> uint ((3 + of_nat j :: u32) AND 3)) \<longrightarrow> ring q' a = ring ?Q a"
    "alf_queue_avail_space q' = 0"
    "alf_contents q' = [22] @ map (\<lambda>j. ?P (int j)) [0..<2]"
    using alf_mp_enqueue_all_or_nothing [OF i, of 2 ?P] p c s con
    by (auto simp: Let_def)
  have r3: "ring q' 3 = 10" using q'(3) [rule_format, of 0] by simp
  have r0: "ring q' 0 = 11" using q'(3) [rule_format, of 1] by simp
  have "\<forall>j < 2. (2::int) \<noteq> uint ((3 + of_nat j :: u32) AND 3)"
  proof (intro allI impI)
    fix j :: nat assume "j < 2"
    then consider "j = 0" | "j = 1" by linarith
    then show "(2::int) \<noteq> uint ((3 + of_nat j :: u32) AND 3)"
      by cases simp_all
  qed
  then have r2: "ring q' 2 = 22" using q'(4) [rule_format, of 2] by simp
  have u: "[0..<2] = [0, 1]"
    by code_simp
  have l: "alf_contents q' = [22, 10, 11]"
    using q'(6) by (simp add: u)
  show ?thesis
    using i p s f q'(1,2,5) r3 r0 r2 l by blast
qed

section \<open>Dequeue\<close>

lemma unat_min_u32: "unat (min (a::u32) b) = min (unat a) (unat b)"
  by (simp add: min_def word_le_nat_alt)

lemma uint_min_u32: "uint (min (a::u32) b) = min (uint a) (uint b)"
  by (simp add: min_def word_le_def)

lemma length_alf_contents:
  "length (alf_contents q) = unat ((tail (producer q) - head (consumer q)) AND mask_q q)"
  by (simp add: alf_contents_def)

lemma alf_mc_dequeue_idle:
  fixes q :: "'a alf_queue" and ptr :: "'a mem" and n :: u32
  assumes inv: "alf_queue_inv q" and idle: "consumer_idle q"
  defines "e \<equiv> min ((tail (producer q) - head (consumer q)) AND mask_q q) n"
  defines "q' \<equiv> q\<lparr>consumer := \<lparr>head = (head (consumer q) + e) AND mask_q q,
                                 tail = (head (consumer q) + e) AND mask_q q\<rparr>\<rparr>"
  defines "ptr' \<equiv> helper_alf_dequeue_load_mask (head (consumer q)) (tail (producer q)) q ptr e"
  shows "alf_mc_dequeue q ptr n = Some (uint e, q', ptr')"
    and "map ptr' (map int [0..<unat e]) = take (unat e) (alf_contents q)"
    and "\<forall>a. \<not> (0 \<le> a \<and> a < uint e) \<longrightarrow> ptr' a = ptr a"
    and "alf_contents q' = drop (unat e) (alf_contents q)"
    and "alf_queue_count q' = alf_queue_count q - uint e"
    and "(tail (producer q) - head (consumer q)) AND mask_q q = 0 \<longrightarrow> q' = q \<and> ptr' = ptr"
    and "(tail (producer q) - head (consumer q)) AND mask_q q \<le> n \<longrightarrow> alf_queue_empty q'"
proof -
  obtain k where k: "k < 32" "size_q q = 2 ^ k" "mask_q q = mask k"
    "head (producer q) \<le> mask k" "tail (producer q) \<le> mask k"
    "head (consumer q) \<le> mask k" "tail (consumer q) \<le> mask k"
    using inv by (rule alf_queue_inv_facts)
  define avail where "avail = (tail (producer q) - head (consumer q)) AND mask_q q"
  have e: "e = min avail n" by (simp add: e_def avail_def)
  have ea: "e \<le> (tail (producer q) - head (consumer q)) AND mask_q q"
    by (simp add: e_def)
  have em: "e \<le> mask k"
    using ea word_and_le1 unfolding k(3) by (rule order_trans)
  have se: "sint e = uint e"
    by (rule sint_le_mask [OF k(1) em])
  have ct: "tail (consumer q) = head (consumer q)"
    using idle by (simp add: consumer_idle_def)
  have c: "consumer q = \<lparr>head = head (consumer q), tail = head (consumer q)\<rparr>"
    using ct by simp
  have k': "mask_q q' = mask k" by (simp add: q'_def k(3))
  have zero: "q' = q \<and> ptr' = ptr" if "avail = 0"
  proof -
    have e0: "e = 0" using that by (simp add: e)
    have "q\<lparr>consumer := \<lparr>head = head (consumer q), tail = head (consumer q)\<rparr>\<rparr> = q"
      using c by simp
    then have "q' = q"
      by (simp add: q'_def e0 k(3) le_mask_and [OF k(1,6)])
    moreover have "ptr' = ptr"
      by (simp add: ptr'_def e0 helper_alf_dequeue_load_mask_fold)
    ultimately show ?thesis by simp
  qed
  show "alf_mc_dequeue q ptr n = Some (uint e, q', ptr')"
  proof (cases "avail = 0")
    case True
    then have "alf_mc_dequeue q ptr n = Some (0, q, ptr)"
      unfolding avail_def by (rule alf_mc_dequeue_empty)
    then show ?thesis using zero [OF True] True by (simp add: e)
  next
    case False
    then show ?thesis
      using alf_mc_dequeue_ok [OF _ ct, where ptr = ptr and n = n]
      by (simp add: avail_def e_def [symmetric] se q'_def ptr'_def)
  qed
  show "map ptr' (map int [0..<unat e]) = take (unat e) (alf_contents q)"
    unfolding ptr'_def by (rule alf_contents_dequeue(1) [OF inv ea])
  show "\<forall>a. \<not> (0 \<le> a \<and> a < uint e) \<longrightarrow> ptr' a = ptr a"
    unfolding ptr'_def using helper_load_other [OF k(1) em] by blast
  show "alf_contents q' = drop (unat e) (alf_contents q)"
    unfolding q'_def by (rule alf_contents_dequeue(2) [OF inv ea])
  show "alf_queue_count q' = alf_queue_count q - uint e"
    unfolding alf_queue_count_uint [OF k(1) k'] alf_queue_count_uint [OF k(1,3)]
    using uint_count_after_dequeue [OF k(1) ea [unfolded k(3)]] by (simp add: q'_def k(3))
  show "(tail (producer q) - head (consumer q)) AND mask_q q = 0 \<longrightarrow> q' = q \<and> ptr' = ptr"
    using zero by (simp add: avail_def)
  show "(tail (producer q) - head (consumer q)) AND mask_q q \<le> n \<longrightarrow> alf_queue_empty q'"
  proof
    assume "(tail (producer q) - head (consumer q)) AND mask_q q \<le> n"
    then have "e = (tail (producer q) - head (consumer q)) AND mask k"
      by (simp add: e_def k(3))
    then have "(head (consumer q) + e) AND mask k = tail (producer q)"
      using ring_index_shift [of "head (consumer q)" "tail (producer q)" k 0]
      by (simp add: le_mask_and [OF k(1,5)])
    then show "alf_queue_empty q'"
      by (simp add: alf_queue_empty_def q'_def k(3))
  qed
qed

text \<open>
  C3. Partial-acceptance dequeue. With \<open>available = (producer.tail - consumer.head) mod size\<close>,
  \<open>alf_mc_dequeue\<close> has no error result and returns \<open>min available n\<close>; the
  references it puts in the caller's buffer are the first that many of the queue's
  content, in order, and the queue keeps the rest. A request for at least as many as
  the queue holds (10 from a queue holding 3) returns them all and leaves the queue
  empty; a request on an empty queue returns 0 and changes neither the queue nor the
  buffer. The caller is the only consumer at work (\<open>consumer.tail = consumer.head\<close>).
\<close>

theorem alf_mc_dequeue_partial:
  assumes "alf_queue_inv q" "consumer_idle q"
  shows "let c = head (consumer q); avail = (tail (producer q) - c) AND mask_q q;
             elems = min avail n in
     uint avail = (uint (tail (producer q)) - uint c) mod uint (size_q q) \<and>
     alf_queue_count q = uint avail \<and> length (alf_contents q) = unat avail \<and>
     uint elems = min (uint avail) (uint n) \<and>
     (\<exists>q' ptr'. alf_mc_dequeue q ptr n = Some (uint elems, q', ptr') \<and>
        map ptr' (map int [0..<unat elems]) = take (unat elems) (alf_contents q) \<and>
        (\<forall>a. \<not> (0 \<le> a \<and> a < uint elems) \<longrightarrow> ptr' a = ptr a) \<and>
        consumer q' = \<lparr>head = (c + elems) AND mask_q q, tail = (c + elems) AND mask_q q\<rparr> \<and>
        producer q' = producer q \<and> ring q' = ring q \<and> size_q q' = size_q q \<and>
        mask_q q' = mask_q q \<and> flags q' = flags q \<and>
        alf_contents q' = drop (unat elems) (alf_contents q) \<and>
        alf_queue_count q' = alf_queue_count q - uint elems \<and>
        (avail = 0 \<longrightarrow> q' = q \<and> ptr' = ptr) \<and>
        (avail \<le> n \<longrightarrow> alf_queue_empty q' \<and> alf_queue_count q' = 0))"
proof -
  obtain k where k: "k < 32" "size_q q = 2 ^ k" "mask_q q = mask k"
    using assms(1) by (rule alf_queue_inv_mask)
  define c where "c = head (consumer q)"
  define avail where "avail = (tail (producer q) - c) AND mask_q q"
  define elems where "elems = min avail n"
  define q' where "q' = q\<lparr>consumer := \<lparr>head = (c + elems) AND mask_q q,
                                        tail = (c + elems) AND mask_q q\<rparr>\<rparr>"
  define ptr' where "ptr' = helper_alf_dequeue_load_mask c (tail (producer q)) q ptr elems"
  note sp = alf_mc_dequeue_idle(1,2,3,6) [OF assms, where ptr = ptr and n = n,
      folded c_def, folded avail_def, folded elems_def, folded q'_def ptr'_def]
  note sn = alf_mc_dequeue_idle(4,5,7) [OF assms, where n = n,
      folded c_def, folded avail_def, folded elems_def, folded q'_def]
  have a: "uint avail = (uint (tail (producer q)) - uint c) mod uint (size_q q)"
    by (simp add: avail_def k(2,3) uint_sub_and_mask [OF k(1)] uint_exp_u32 [OF k(1)])
  have b: "alf_queue_count q = uint avail"
    by (simp add: avail_def c_def alf_queue_count_uint [OF k(1,3)] k(3))
  have l: "length (alf_contents q) = unat avail"
    by (simp add: length_alf_contents avail_def c_def)
  have m: "uint elems = min (uint avail) (uint n)"
    by (simp add: elems_def uint_min_u32)
  have z: "alf_queue_count q' = 0" if "avail \<le> n"
  proof -
    have "elems = avail" using that by (simp add: elems_def)
    then show ?thesis using sn(2) b by simp
  qed
  have d: "alf_mc_dequeue q ptr n = Some (uint elems, q', ptr') \<and>
        map ptr' (map int [0..<unat elems]) = take (unat elems) (alf_contents q) \<and>
        (\<forall>a. \<not> (0 \<le> a \<and> a < uint elems) \<longrightarrow> ptr' a = ptr a) \<and>
        consumer q' = \<lparr>head = (c + elems) AND mask_q q, tail = (c + elems) AND mask_q q\<rparr> \<and>
        producer q' = producer q \<and> ring q' = ring q \<and> size_q q' = size_q q \<and>
        mask_q q' = mask_q q \<and> flags q' = flags q \<and>
        alf_contents q' = drop (unat elems) (alf_contents q) \<and>
        alf_queue_count q' = alf_queue_count q - uint elems \<and>
        (avail = 0 \<longrightarrow> q' = q \<and> ptr' = ptr) \<and>
        (avail \<le> n \<longrightarrow> alf_queue_empty q' \<and> alf_queue_count q' = 0)"
    apply (intro conjI)
                apply (rule sp(1))
               apply (rule sp(2))
              apply (rule sp(3))
             apply (simp add: q'_def)
            apply (simp add: q'_def)
           apply (simp add: q'_def)
          apply (simp add: q'_def)
         apply (simp add: q'_def)
        apply (simp add: q'_def)
       apply (rule sn(1))
      apply (rule sn(2))
     apply (rule sp(4))
    using sn(3) z apply blast
    done
  show ?thesis
    unfolding Let_def c_def [symmetric] avail_def [symmetric] elems_def [symmetric]
    using a b l m d by blast
qed

theorem alf_mc_dequeue_partial_witness:
  "alf_queue_inv (alf_queue_of 4 1 2 ((\<lambda>_. 0 :: nat)(2 := 12, 3 := 13, 0 := 10))) \<and>
   consumer_idle (alf_queue_of 4 1 2 ((\<lambda>_. 0 :: nat)(2 := 12, 3 := 13, 0 := 10))) \<and>
   alf_queue_count (alf_queue_of 4 1 2 ((\<lambda>_. 0 :: nat)(2 := 12, 3 := 13, 0 := 10))) = 3 \<and>
   (\<exists>q' ptr'. alf_mc_dequeue (alf_queue_of 4 1 2 ((\<lambda>_. 0 :: nat)(2 := 12, 3 := 13, 0 := 10)))
                 (\<lambda>_. 0) 10 = Some (3, q', ptr') \<and>
              map ptr' [0, 1, 2] = [12, 13, 10] \<and> alf_queue_empty q' \<and> alf_queue_count q' = 0 \<and>
              (\<exists>q'' ptr''. alf_mc_dequeue q' (\<lambda>_. 7) 10 = Some (0, q'', ptr'') \<and>
                             q'' = q' \<and> ptr'' = (\<lambda>_. 7)))"
proof -
  let ?Q = "alf_queue_of 4 1 2 ((\<lambda>_. 0 :: nat)(2 := 12, 3 := 13, 0 := 10))"
  have i: "alf_queue_inv ?Q"
    by (simp add: alf_queue_inv_def is_power_of_two_4)
  have c: "consumer_idle ?Q"
    by (simp add: consumer_idle_def)
  have n: "alf_queue_count ?Q = 3"
    by (simp add: alf_queue_count_def)
  have u: "[0..<3] = [0, 1, 2]"
    by code_simp
  have con: "alf_contents ?Q = [12, 13, 10]"
    by (simp add: alf_contents_def u)
  obtain q' ptr' where d: "alf_mc_dequeue ?Q (\<lambda>_. 0) 10 = Some (3, q', ptr')"
    "map ptr' (map int [0..<3]) = take 3 (alf_contents ?Q)"
    "alf_queue_empty q'" "alf_queue_count q' = 0"
    "consumer q' = \<lparr>head = 1, tail = 1\<rparr>" "producer q' = \<lparr>head = 1, tail = 1\<rparr>"
    "size_q q' = 4" "mask_q q' = 3"
    using alf_mc_dequeue_partial [OF i c, of 10 "\<lambda>_. 0"]
    by (auto simp: Let_def)
  have m: "map ptr' [0, 1, 2] = [12, 13, 10]"
    using d(2) by (simp add: con u)
  have i': "alf_queue_inv q'"
    by (simp add: alf_queue_inv_def d(5-8) is_power_of_two_4)
  have c': "consumer_idle q'"
    by (simp add: consumer_idle_def d(5))
  have "alf_mc_dequeue q' (\<lambda>_. 7) 10 = Some (0, q', \<lambda>_. 7)"
    using alf_mc_dequeue_partial [OF i' c', of 10 "\<lambda>_. 7"]
    by (auto simp: Let_def d(5-8))
  then have "\<exists>q'' ptr''. alf_mc_dequeue q' (\<lambda>_. 7) 10 = Some (0, q'', ptr'') \<and>
                   q'' = q' \<and> ptr'' = (\<lambda>_. 7)"
    by simp
  then have "\<exists>q' ptr'. alf_mc_dequeue ?Q (\<lambda>_. 0) 10 = Some (3, q', ptr') \<and>
              map ptr' [0, 1, 2] = [12, 13, 10] \<and> alf_queue_empty q' \<and> alf_queue_count q' = 0 \<and>
              (\<exists>q'' ptr''. alf_mc_dequeue q' (\<lambda>_. 7) 10 = Some (0, q'', ptr'') \<and>
                             q'' = q' \<and> ptr'' = (\<lambda>_. 7))"
    using d(1,3,4) m by (intro exI [of _ q', OF exI [of _ ptr']]) simp
  then show ?thesis
    using i c n by (intro conjI)
qed

section \<open>First in, first out\<close>

text \<open>On a queue where no reservation is waiting, the two operations are those of a
  bounded list: enqueue appends a batch that fits, dequeue takes a prefix.\<close>

lemma alf_contents_empty:
  assumes "alf_queue_empty q" "consumer_idle q"
  shows "alf_contents q = []"
  using assms by (simp add: alf_contents_def alf_queue_empty_def consumer_idle_def)

lemma take_min_length: "take (min (length xs) n) xs = take n xs"
  by (simp add: min_def)

lemma drop_min_length: "drop (min (length xs) n) xs = drop n xs"
  by (simp add: min_def)

lemma alf_mp_enqueue_list:
  fixes q :: "'a alf_queue" and ptr :: "'a mem" and n :: u32
  assumes all: "alf_queue_inv q \<and> producer_idle q \<and> consumer_idle q"
    and room: "length (alf_contents q) + unat n \<le> unat (mask_q q)"
  obtains q' where "alf_mp_enqueue q ptr n = Some (Inr (int (unat n)), q')"
    and "alf_contents q' = alf_contents q @ map (\<lambda>j. ptr (int j)) [0..<unat n]"
    and "alf_queue_inv q' \<and> producer_idle q' \<and> consumer_idle q'"
proof -
  have inv: "alf_queue_inv q" and pi: "producer_idle q" and ci: "consumer_idle q"
    using all by simp_all
  obtain k where k: "k < 32" "size_q q = 2 ^ k" "mask_q q = mask k"
    using inv by (rule alf_queue_inv_mask)
  have pt: "tail (producer q) = head (producer q)" and ct: "tail (consumer q) = head (consumer q)"
    using pi ci by (simp_all add: producer_idle_def consumer_idle_def)
  let ?C = "(head (producer q) - head (consumer q)) AND mask k"
  let ?S = "(head (consumer q) - head (producer q) - 1) AND mask k"
  have "int (unat ?C) + int (unat n) \<le> int (unat (mask k :: u32))"
    using room by (simp only: length_alf_contents pt k(3) flip: of_nat_add)
  then have "uint ?C + uint n \<le> 2 ^ k - 1"
    by (simp only: flip: uint_nat) (simp add: uint_mask_u32 [OF k(1)])
  then have "uint n \<le> uint ?S"
    using uint_count_plus_space [OF k(1), of "head (producer q)" "head (consumer q)"] by linarith
  then have le: "n \<le> (tail (consumer q) - head (producer q) - 1) AND mask_q q"
    by (simp add: word_le_def ct k(3))
  note s = alf_mp_enqueue_idle [OF inv pi le, where ptr = ptr]
  show ?thesis
  proof (rule that)
    show "alf_mp_enqueue q ptr n = Some (Inr (int (unat n)), 
       (helper_alf_enqueue_store_mask (head (producer q)) (tail (consumer q)) q ptr n)
              \<lparr>producer := \<lparr>head = (head (producer q) + n) AND mask_q q,
                            tail = (head (producer q) + n) AND mask_q q\<rparr>\<rparr>)"
      using s(1) by (simp only: uint_nat)
    then show "alf_queue_inv ((helper_alf_enqueue_store_mask (head (producer q)) (tail (consumer q)) q ptr n)
              \<lparr>producer := \<lparr>head = (head (producer q) + n) AND mask_q q,
                            tail = (head (producer q) + n) AND mask_q q\<rparr>\<rparr>) \<and>
        producer_idle ((helper_alf_enqueue_store_mask (head (producer q)) (tail (consumer q)) q ptr n)
              \<lparr>producer := \<lparr>head = (head (producer q) + n) AND mask_q q,
                            tail = (head (producer q) + n) AND mask_q q\<rparr>\<rparr>) \<and>
        consumer_idle ((helper_alf_enqueue_store_mask (head (producer q)) (tail (consumer q)) q ptr n)
              \<lparr>producer := \<lparr>head = (head (producer q) + n) AND mask_q q,
                            tail = (head (producer q) + n) AND mask_q q\<rparr>\<rparr>)"
      using all by (rule alf_mp_enqueue_inv)
    show "alf_contents ((helper_alf_enqueue_store_mask (head (producer q)) (tail (consumer q)) q ptr n)
              \<lparr>producer := \<lparr>head = (head (producer q) + n) AND mask_q q,
                            tail = (head (producer q) + n) AND mask_q q\<rparr>\<rparr>)
          = alf_contents q @ map (\<lambda>j. ptr (int j)) [0..<unat n]"
      by (rule s(4) [OF ci])
  qed
qed

lemma alf_mc_dequeue_list:
  fixes q :: "'a alf_queue" and ptr :: "'a mem" and n :: u32
  assumes all: "alf_queue_inv q \<and> producer_idle q \<and> consumer_idle q"
  obtains q' ptr' where
    "alf_mc_dequeue q ptr n = Some (int (min (length (alf_contents q)) (unat n)), q', ptr')"
    and "map ptr' (map int [0..<min (length (alf_contents q)) (unat n)]) = take (unat n) (alf_contents q)"
    and "alf_contents q' = drop (unat n) (alf_contents q)"
    and "alf_queue_inv q' \<and> producer_idle q' \<and> consumer_idle q'"
proof -
  have inv: "alf_queue_inv q" and ci: "consumer_idle q"
    using all by simp_all
  define e where "e = min ((tail (producer q) - head (consumer q)) AND mask_q q) n"
  have ue: "unat e = min (length (alf_contents q)) (unat n)"
    by (simp add: e_def unat_min_u32 length_alf_contents)
  note sp = alf_mc_dequeue_idle(1,2) [OF inv ci, where ptr = ptr and n = n, folded e_def]
  note sn = alf_mc_dequeue_idle(4) [OF inv ci, where n = n, folded e_def]
  show ?thesis
  proof (rule that)
    show d: "alf_mc_dequeue q ptr n = Some (int (min (length (alf_contents q)) (unat n)),
        q\<lparr>consumer := \<lparr>head = (head (consumer q) + e) AND mask_q q,
                        tail = (head (consumer q) + e) AND mask_q q\<rparr>\<rparr>,
        helper_alf_dequeue_load_mask (head (consumer q)) (tail (producer q)) q ptr e)"
      using sp(1) by (simp only: uint_nat ue)
    show "alf_queue_inv (q\<lparr>consumer := \<lparr>head = (head (consumer q) + e) AND mask_q q,
                        tail = (head (consumer q) + e) AND mask_q q\<rparr>\<rparr>) \<and>
          producer_idle (q\<lparr>consumer := \<lparr>head = (head (consumer q) + e) AND mask_q q,
                        tail = (head (consumer q) + e) AND mask_q q\<rparr>\<rparr>) \<and>
          consumer_idle (q\<lparr>consumer := \<lparr>head = (head (consumer q) + e) AND mask_q q,
                        tail = (head (consumer q) + e) AND mask_q q\<rparr>\<rparr>)"
      using d all by (rule alf_mc_dequeue_inv)
    show "map (helper_alf_dequeue_load_mask (head (consumer q)) (tail (producer q)) q ptr e)
            (map int [0..<min (length (alf_contents q)) (unat n)]) = take (unat n) (alf_contents q)"
      using sp(2) by (simp add: ue take_min_length)
    show "alf_contents (q\<lparr>consumer := \<lparr>head = (head (consumer q) + e) AND mask_q q,
                        tail = (head (consumer q) + e) AND mask_q q\<rparr>\<rparr>)
          = drop (unat n) (alf_contents q)"
      using sn by (simp add: ue drop_min_length)
  qed
qed

lemma alf_contents_Nil_empty:
  assumes inv: "alf_queue_inv q" and ci: "consumer_idle q" and nil: "alf_contents q = []"
  shows "alf_queue_empty q"
proof -
  obtain k where k: "k < 32" "size_q q = 2 ^ k" "mask_q q = mask k"
    "head (producer q) \<le> mask k" "tail (producer q) \<le> mask k"
    "head (consumer q) \<le> mask k" "tail (consumer q) \<le> mask k"
    using inv by (rule alf_queue_inv_facts)
  have "unat ((tail (producer q) - head (consumer q)) AND mask k) = 0"
    using nil by (simp add: alf_contents_def k(3))
  then have z: "(tail (producer q) - head (consumer q)) AND mask k = 0"
    by (simp add: unat_eq_0)
  have "head (consumer q) AND mask k = tail (producer q) AND mask k"
    using ring_index_shift [of "head (consumer q)" "tail (producer q)" k 0] by (simp add: z)
  then have "head (consumer q) = tail (producer q)"
    by (simp add: le_mask_and [OF k(1,5)] le_mask_and [OF k(1,6)])
  then show ?thesis
    using ci by (simp add: alf_queue_empty_def consumer_idle_def)
qed


text \<open>
  C4. Round trip. On an empty queue of capacity at least 5 (\<open>mask = size - 1 \<ge> 5\<close>, the
  cursors anywhere in the ring), enqueueing the batch \<open>[a, b, c, d, e]\<close> and then calling
  \<open>alf_mc_dequeue\<close> three times with \<open>n = 2\<close> returns 2, 2 and 1 and fills the buffers
  with \<open>[a, b]\<close>, \<open>[c, d]\<close> and \<open>[e]\<close>; the queue is empty again.
\<close>

theorem fifo_round_trip:
  assumes "alf_queue_inv q" "producer_idle q" "consumer_idle q" "alf_queue_empty q"
    and "5 \<le> mask_q q"
    and "map ptr [0, 1, 2, 3, 4] = [a, b, c, d, e]"
  shows "\<exists>q1 q2 q3 q4 o1 o2 o3.
     alf_mp_enqueue q ptr 5 = Some (Inr 5, q1) \<and>
     alf_mc_dequeue q1 out1 2 = Some (2, q2, o1) \<and> map o1 [0, 1] = [a, b] \<and>
     alf_mc_dequeue q2 out2 2 = Some (2, q3, o2) \<and> map o2 [0, 1] = [c, d] \<and>
     alf_mc_dequeue q3 out3 2 = Some (1, q4, o3) \<and> map o3 [0] = [e] \<and>
     alf_queue_empty q4"
proof -
  have u5: "[0..<5] = [0, 1, 2, 3, 4]" and u2: "[0..<2] = [0, 1]" and u1: "[0..<1] = [0]"
    by code_simp+
  have all0: "alf_queue_inv q \<and> producer_idle q \<and> consumer_idle q"
    using assms(1-3) by simp
  have con0: "alf_contents q = []"
    using assms(4,3) by (rule alf_contents_empty)
  have room: "length (alf_contents q) + unat (5::u32) \<le> unat (mask_q q)"
    using assms(5) by (simp add: con0 word_le_nat_alt)
  obtain q1 where e1: "alf_mp_enqueue q ptr 5 = Some (Inr (int (unat (5::u32))), q1)"
    and c1: "alf_contents q1 = alf_contents q @ map (\<lambda>j. ptr (int j)) [0..<unat (5::u32)]"
    and all1: "alf_queue_inv q1 \<and> producer_idle q1 \<and> consumer_idle q1"
    using all0 room by (rule alf_mp_enqueue_list)
  have con1: "alf_contents q1 = [a, b, c, d, e]"
    using c1 assms(6) by (simp add: con0 u5)
  obtain q2 o1 where d1: "alf_mc_dequeue q1 out1 2 =
        Some (int (min (length (alf_contents q1)) (unat (2::u32))), q2, o1)"
    and m1: "map o1 (map int [0..<min (length (alf_contents q1)) (unat (2::u32))])
        = take (unat (2::u32)) (alf_contents q1)"
    and c2: "alf_contents q2 = drop (unat (2::u32)) (alf_contents q1)"
    and all2: "alf_queue_inv q2 \<and> producer_idle q2 \<and> consumer_idle q2"
    using all1 by (rule alf_mc_dequeue_list)
  have con2: "alf_contents q2 = [c, d, e]"
    using c2 by (simp add: con1)
  obtain q3 o2 where d2: "alf_mc_dequeue q2 out2 2 =
        Some (int (min (length (alf_contents q2)) (unat (2::u32))), q3, o2)"
    and m2: "map o2 (map int [0..<min (length (alf_contents q2)) (unat (2::u32))])
        = take (unat (2::u32)) (alf_contents q2)"
    and c3: "alf_contents q3 = drop (unat (2::u32)) (alf_contents q2)"
    and all3: "alf_queue_inv q3 \<and> producer_idle q3 \<and> consumer_idle q3"
    using all2 by (rule alf_mc_dequeue_list)
  have con3: "alf_contents q3 = [e]"
    using c3 by (simp add: con2)
  obtain q4 o3 where d3: "alf_mc_dequeue q3 out3 2 =
        Some (int (min (length (alf_contents q3)) (unat (2::u32))), q4, o3)"
    and m3: "map o3 (map int [0..<min (length (alf_contents q3)) (unat (2::u32))])
        = take (unat (2::u32)) (alf_contents q3)"
    and c4: "alf_contents q4 = drop (unat (2::u32)) (alf_contents q3)"
    and all4: "alf_queue_inv q4 \<and> producer_idle q4 \<and> consumer_idle q4"
    using all3 by (rule alf_mc_dequeue_list)
  have con4: "alf_contents q4 = []"
    using c4 by (simp add: con3)
  have r0: "alf_mp_enqueue q ptr 5 = Some (Inr 5, q1)"
    using e1 by simp
  have r1: "alf_mc_dequeue q1 out1 2 = Some (2, q2, o1)" and l1: "map o1 [0, 1] = [a, b]"
    using d1 m1 by (simp_all add: con1 u2)
  have r2: "alf_mc_dequeue q2 out2 2 = Some (2, q3, o2)" and l2: "map o2 [0, 1] = [c, d]"
    using d2 m2 by (simp_all add: con2 u2)
  have r3: "alf_mc_dequeue q3 out3 2 = Some (1, q4, o3)" and l3: "map o3 [0] = [e]"
    using d3 m3 by (simp_all add: con3 u1)
  have emp: "alf_queue_empty q4"
    using all4 con4 by (intro alf_contents_Nil_empty) simp_all
  show ?thesis
    using r0 r1 l1 r2 l2 r3 l3 emp by (intro exI conjI)
qed

theorem fifo_round_trip_witness:
  "alf_queue_inv (alf_queue_of 8 6 6 (\<lambda>_. 0 :: nat)) \<and>
   producer_idle (alf_queue_of 8 6 6 (\<lambda>_. 0 :: nat)) \<and>
   consumer_idle (alf_queue_of 8 6 6 (\<lambda>_. 0 :: nat)) \<and>
   alf_queue_empty (alf_queue_of 8 6 6 (\<lambda>_. 0 :: nat)) \<and>
   (5::u32) \<le> mask_q (alf_queue_of 8 6 6 (\<lambda>_. 0 :: nat)) \<and>
   (\<exists>q1 q2 q3 q4 o1 o2 o3.
     alf_mp_enqueue (alf_queue_of 8 6 6 (\<lambda>_. 0 :: nat))
       ((\<lambda>_. 0)(0 := 10, 1 := 11, 2 := 12, 3 := 13, 4 := 14)) 5 = Some (Inr 5, q1) \<and>
     alf_mc_dequeue q1 (\<lambda>_. 0) 2 = Some (2, q2, o1) \<and> map o1 [0, 1] = [10, 11] \<and>
     alf_mc_dequeue q2 (\<lambda>_. 0) 2 = Some (2, q3, o2) \<and> map o2 [0, 1] = [12, 13] \<and>
     alf_mc_dequeue q3 (\<lambda>_. 0) 2 = Some (1, q4, o3) \<and> map o3 [0] = [14] \<and>
     alf_queue_empty q4)"
proof -
  let ?Q = "alf_queue_of 8 6 6 (\<lambda>_. 0 :: nat)"
  let ?P = "(\<lambda>_ :: int. 0 :: nat)(0 := 10, 1 := 11, 2 := 12, 3 := 13, 4 := 14)"
  have i: "alf_queue_inv ?Q"
    by (simp add: alf_queue_inv_def is_power_of_two_8 word_le_nat_alt)
  have p: "producer_idle ?Q" and c: "consumer_idle ?Q" and e: "alf_queue_empty ?Q"
    by (simp_all add: producer_idle_def consumer_idle_def alf_queue_empty_def)
  have m: "(5::u32) \<le> mask_q ?Q"
    by (simp add: word_le_nat_alt)
  have b: "map ?P [0, 1, 2, 3, 4] = [10, 11, 12, 13, 14]"
    by simp
  show ?thesis
    using i p c e m fifo_round_trip [OF i p c e m b, of "\<lambda>_. 0" "\<lambda>_. 0" "\<lambda>_. 0"]
    by (intro conjI)
qed

section \<open>Interleaved callers\<close>

text \<open>A caller that runs alone goes through its steps to the result of the function.\<close>

lemma alf_actor_update_both: "p\<lparr>head := a, tail := b\<rparr> = \<lparr>head = a, tail = b\<rparr>"
  by (cases p) simp

lemma enqueue_thread_alone:
  assumes "n \<le> (tail (consumer q) - head (producer q) - 1) AND mask_q q"
    and "tail (producer q) = head (producer q)"
    and "alf_mp_enqueue q ptr n = Some (r, q')"
  shows "run [0, 0, 0, 0, 0, 0] (q, [Enqueue ptr n E_start]) = (q', [Enqueue ptr n (E_done r)])"
  using assms(3) unfolding alf_mp_enqueue_ok [OF assms(1,2)]
  using assms(1,2)
  by (simp add: run_def Let_def cmpxchg_def helper_alf_enqueue_store_def
      helper_store_producer_upd not_less [symmetric] alf_actor_update_both)

lemma enqueue_thread_alone_fail:
  assumes "(tail (consumer q) - head (producer q) - 1) AND mask_q q < n"
  shows "run [0, 0] (q, [Enqueue ptr n E_start]) = (q, [Enqueue ptr n (E_done (Inl ENOBUFS))])"
  using assms by (simp add: run_def Let_def)

lemma dequeue_thread_alone:
  assumes "(tail (producer q) - head (consumer q)) AND mask_q q \<noteq> 0"
    and "tail (consumer q) = head (consumer q)"
    and "alf_mc_dequeue q ptr n = Some (r, q', ptr')"
  shows "run [0, 0, 0, 0, 0, 0] (q, [Dequeue ptr n D_start]) = (q', [Dequeue ptr' n (D_done r)])"
  using assms(3) unfolding alf_mc_dequeue_ok [OF assms(1,2)]
  using assms(1,2)
  by (simp add: run_def Let_def cmpxchg_def helper_alf_dequeue_load_def
      helper_load_consumer_upd alf_actor_update_both)

lemma dequeue_thread_alone_empty:
  assumes "(tail (producer q) - head (consumer q)) AND mask_q q = 0"
  shows "run [0, 0] (q, [Dequeue ptr n D_start]) = (q, [Dequeue ptr n (D_done 0)])"
  using assms by (simp add: run_def Let_def)

text \<open>
  C8. The claim is that the ranges granted to concurrent producers never overlap, and
  likewise for concurrent consumers. The cursors are stored reduced by the mask (C9),
  so a head that has travelled once around the ring shows the value it had before.
  Ring of size 4, all cursors 0. Producer 0 (three references) reads
  \<open>producer.head = 0\<close> and \<open>consumer.tail = 0\<close> and is held up before its \<open>cmpxchg\<close>.
  Producer 1 enqueues one reference, consumer 2 dequeues it; producer 3 (three
  references) reads head 1, tail 1, finds room for three and moves the head from 1 to
  \<open>(1 + 3) & 3 = 0\<close>: it holds slots 1, 2, 3 and has not published. Now producer 0
  resumes: its \<open>cmpxchg\<close> finds the head at 0, as in its snapshot, and succeeds: it
  holds slots 0, 1, 2. Slots 1 and 2 are in both reservations. Run to the end, both
  calls return 3, producer 0's references have replaced two of producer 3's, and the
  queue counts 2 references after 3 + 3 accepted and none dequeued since. The second
  run does the same to two consumers.
\<close>

theorem reservations_overlap_after_wrap:
  "cursors (run aba_producers_schedule aba_producers) = [3, 1, 1, 1] \<and>
   thread_pcs (run aba_producers_schedule aba_producers) =
     [Inl (E_storing 0 0 3), Inl (E_done (Inr 1)), Inr (D_done 1), Inl (E_storing 1 1 0)] \<and>
   map (enq_reserved 3) (snd (run aba_producers_schedule aba_producers)) =
     [[0, 1, 2], [], [], [1, 2, 3]] \<and>
   \<not> reservations_disjoint (run aba_producers_schedule aba_producers) \<and>
   thread_pcs (run (aba_producers_schedule @ [3, 3, 3, 0, 0, 0]) aba_producers) =
     [Inl (E_done (Inr 3)), Inl (E_done (Inr 1)), Inr (D_done 1), Inl (E_done (Inr 3))] \<and>
   cursors (run (aba_producers_schedule @ [3, 3, 3, 0, 0, 0]) aba_producers) = [3, 3, 1, 1] \<and>
   alf_queue_count (fst (run (aba_producers_schedule @ [3, 3, 3, 0, 0, 0]) aba_producers)) = 2 \<and>
   map (ring (fst (run (aba_producers_schedule @ [3, 3, 3, 0, 0, 0]) aba_producers))) [0, 1, 2, 3] =
     [1, 1, 1, 3] \<and>
   map (deq_reserved 3) (snd (run aba_consumers_schedule aba_consumers)) =
     [[], [0, 1, 2], [], [], [1, 2, 3]] \<and>
   \<not> reservations_disjoint (run aba_consumers_schedule aba_consumers)"
  by code_simp

end
